theory Spec2Isabelle
  imports Complex_Main
begin

section \<open>Values of the host language\<close>

text \<open>
  A JavaScript \<open>number\<close> is read as an exact real: rounding, NaN and the infinities of
  IEEE doubles are outside this development. A \<open>string\<close> is a list of characters, compared
  by character code as the relational operators of the language compare code units.
\<close>

type_synonym number = real

text \<open>
  \<open>Map<K, V>\<close>: the entries in insertion order. \<open>Map_get\<close> is \<open>Map.prototype.get\<close>
  (\<open>None\<close> for \<open>undefined\<close>); \<open>Map_set\<close> is \<open>Map.prototype.set\<close>, which replaces the
  value of a key already present where it stands and appends a new key at the end.
\<close>

type_synonym ('k, 'v) Map = "('k \<times> 'v) list"

definition Map_get :: "('k, 'v) Map \<Rightarrow> 'k \<Rightarrow> 'v option" where
  "Map_get m k = map_of m k"

primrec Map_set :: "'k \<Rightarrow> 'v \<Rightarrow> ('k, 'v) Map \<Rightarrow> ('k, 'v) Map" where
  "Map_set k v [] = [(k, v)]"
| "Map_set k v (p # ps) = (if fst p = k then (k, v) # ps else p # Map_set k v ps)"

text \<open>\<open>e || 0\<close> for an optional number \<open>e\<close>: \<open>undefined\<close> and \<open>0\<close> both give \<open>0\<close>.\<close>

fun or_zero :: "number option \<Rightarrow> number" where
  "or_zero None = 0"
| "or_zero (Some v) = (if v = 0 then 0 else v)"

text \<open>\<open>Number.prototype.toString\<close> on an integer, in decimal.\<close>

definition digit_char :: "nat \<Rightarrow> char" where
  "digit_char n = ''0123456789'' ! n"

fun nat_toString :: "nat \<Rightarrow> string" where
  "nat_toString n =
     (if n < 10 then [digit_char n] else nat_toString (n div 10) @ [digit_char (n mod 10)])"

definition int_toString :: "int \<Rightarrow> string" where
  "int_toString i = (if i < 0 then CHR ''-'' # nat_toString (nat (- i)) else nat_toString (nat i))"

text \<open>\<open>s.padStart(n, c)\<close> with a one-character pad string.\<close>

definition padStart :: "nat \<Rightarrow> char \<Rightarrow> string \<Rightarrow> string" where
  "padStart n c s = replicate (n - length s) c @ s"

text \<open>\<open>s.startsWith(p)\<close>.\<close>

fun startsWith :: "string \<Rightarrow> string \<Rightarrow> bool" where
  "startsWith s [] = True"
| "startsWith [] (p # ps) = False"
| "startsWith (c # cs) (p # ps) = (c = p \<and> startsWith cs ps)"

text \<open>\<open>a < b\<close> and \<open>a > b\<close> on strings: lexicographic on character codes.\<close>

fun str_less :: "string \<Rightarrow> string \<Rightarrow> bool" where
  "str_less [] [] = False"
| "str_less [] (y # ys) = True"
| "str_less (x # xs) [] = False"
| "str_less (x # xs) (y # ys) =
     (if x = y then str_less xs ys else (of_char x :: nat) < of_char y)"

definition str_greater :: "string \<Rightarrow> string \<Rightarrow> bool" where
  "str_greater a b = str_less b a"

text \<open>\<open>s.split(':')\<close>: never empty; the empty string gives one empty segment.\<close>

fun split_colon :: "string \<Rightarrow> string list" where
  "split_colon [] = [[]]"
| "split_colon (c # cs) =
     (if c = CHR '':'' then [] # split_colon cs
      else (case split_colon cs of [] \<Rightarrow> [[c]] | s # ss \<Rightarrow> (c # s) # ss))"

section \<open>Dates\<close>

text \<open>
  Modelled from the spec: the \<open>Moment\<close> type of the date library, which the repository
  imports and does not define. The engine uses \<open>year()\<close>, \<open>dayOfYear()\<close>, \<open>clone()\<close>,
  \<open>isSameOrBefore\<close> and \<open>add(1, 'day')\<close>. A date is a local date with a time of day: its
  year, its ordinal day in that (Gregorian) year, and the milliseconds since local midnight.

  \<open>isSameOrBefore\<close> is called without a granularity and compares instants: date and time
  of day (within one zone; the hour that a clock set back goes through twice is not told
  apart). \<open>add(1, 'day')\<close> goes to the next calendar day and asks for the same time of day;
  where the local clock skips that time (a daylight-saving gap) the library moves it
  forward, and the date keeps the later time. The zone of the environment is a parameter:
  \<open>zone y n t\<close> is the time of day a date gets when \<open>t\<close> is asked for on day \<open>n\<close> of year
  \<open>y\<close>.
\<close>

record Moment =
  year :: int
  dayOfYear :: nat
  timeOfDay :: nat

type_synonym Zone = "int \<Rightarrow> nat \<Rightarrow> nat \<Rightarrow> nat"

datatype Interval = Day

definition isLeapYear :: "int \<Rightarrow> bool" where
  "isLeapYear y = ((y mod 4 = 0 \<and> y mod 100 \<noteq> 0) \<or> y mod 400 = 0)"

definition daysInYear :: "int \<Rightarrow> nat" where
  "daysInYear y = (if isLeapYear y then 366 else 365)"


definition isSameOrBefore :: "Moment \<Rightarrow> Moment \<Rightarrow> bool" where
  "isSameOrBefore a b =
     (year a < year b \<or>
      (year a = year b \<and>
        (dayOfYear a < dayOfYear b \<or>
         (dayOfYear a = dayOfYear b \<and> timeOfDay a \<le> timeOfDay b))))"

definition add_one :: "Zone \<Rightarrow> Interval \<Rightarrow> Moment \<Rightarrow> Moment" where
  "add_one zone iv d =
     (case iv of Day \<Rightarrow>
        if dayOfYear d < daysInYear (year d)
        then \<lparr>year = year d, dayOfYear = dayOfYear d + 1,
              timeOfDay = zone (year d) (dayOfYear d + 1) (timeOfDay d)\<rparr>
        else \<lparr>year = year d + 1, dayOfYear = 1,
              timeOfDay = zone (year d + 1) 1 (timeOfDay d)\<rparr>)"

text \<open>
  Two zones: one whose clock never skips a time (a fixed offset), and one whose clock is set
  forward by an hour at midnight of day 152 of 2023, so that the first hour of that day does
  not exist.
\<close>

definition steady_zone :: Zone where
  "steady_zone y n t = t"


section \<open>Bucket names\<close>

text \<open>
  The template literal \<open>`${d.year()}.${d.dayOfYear().toString().padStart(3, '0')}`\<close>,
  which the source writes out at each of its uses.
\<close>

definition travellerDate :: "Moment \<Rightarrow> string" where
  "travellerDate d =
     int_toString (year d) @ ''.'' @ padStart 3 (CHR ''0'') (nat_toString (dayOfYear d))"

function makeBucketNames_loop ::
  "Zone \<Rightarrow> Interval \<Rightarrow> Moment \<Rightarrow> Moment \<Rightarrow> string list \<Rightarrow> string list" where
  "makeBucketNames_loop zone iv currentDate endDate names =
     (if isSameOrBefore currentDate endDate
      then makeBucketNames_loop zone iv (add_one zone iv currentDate) endDate
             (names @ [travellerDate currentDate])
      else names)"
  by pat_completeness auto
termination
  by (relation "measures [\<lambda>(z, iv, c, e, ns). nat (year e - year c + 1),
                          \<lambda>(z, iv, c, e, ns). 367 - dayOfYear c]")
     (auto simp: isSameOrBefore_def add_one_def daysInYear_def split: Interval.splits if_splits)

definition makeBucketNames :: "Zone \<Rightarrow> Interval \<Rightarrow> Moment \<Rightarrow> Moment \<Rightarrow> string list" where
  "makeBucketNames zone interval startDate endDate =
     makeBucketNames_loop zone interval startDate endDate []"

section \<open>Child accounts\<close>

definition findChildAccounts :: "string \<Rightarrow> string list \<Rightarrow> string list" where
  "findChildAccounts account accounts =
     filter (\<lambda>candidate. startsWith candidate (account @ '':'')) accounts"

section \<open>Transactions and their buckets\<close>

text \<open>
  The transaction type of the parser, as far as the engine reads it: \<open>tx.value.date\<close>
  (already read as a calendar day, which the source does with \<open>window.moment\<close>) and
  \<open>tx.value.expenselines\<close>, where a line without an \<open>account\<close> field is a comment.
\<close>

datatype Line =
  Comment string
| Expenseline string string number  \<comment> \<open>\<open>account\<close>, \<open>dealiasedAccount\<close>, \<open>amount\<close>\<close>

record EnhancedTransaction =
  date :: Moment
  expenselines :: "Line list"

text \<open>
  Modelled from the spec: \<open>getWithDefault\<close> of \<open>generic-utils\<close>, the
  get-or-default-and-insert helper: a lookup that inserts the default value when the key is
  absent. It returns the value found or inserted, and the map as it leaves it.
\<close>

definition getWithDefault :: "('k, 'v) Map \<Rightarrow> 'k \<Rightarrow> 'v \<Rightarrow> 'v \<times> ('k, 'v) Map" where
  "getWithDefault m k dflt =
     (case Map_get m k of Some v \<Rightarrow> (v, m) | None \<Rightarrow> (dflt, Map_set k dflt m))"

text \<open>\<open>bucketNames[0]\<close>: \<open>undefined\<close> (\<open>None\<close>) on the empty array.\<close>

fun first_bucket :: "string list \<Rightarrow> string option" where
  "first_bucket [] = None"
| "first_bucket (b # bs) = Some b"

text \<open>The \<open>for ... of\<close> loop with its \<open>break\<close>.\<close>

fun targetBucket_loop :: "string \<Rightarrow> string list \<Rightarrow> string option \<Rightarrow> string option" where
  "targetBucket_loop txTravellerDate [] targetBucket = targetBucket"
| "targetBucket_loop txTravellerDate (bucketName # rest) targetBucket =
     (if str_greater bucketName txTravellerDate then targetBucket
      else targetBucket_loop txTravellerDate rest (Some bucketName))"

definition targetBucket_of :: "string list \<Rightarrow> EnhancedTransaction \<Rightarrow> string option" where
  "targetBucket_of bucketNames tx =
     targetBucket_loop (travellerDate (date tx)) bucketNames (first_bucket bucketNames)"

text \<open>
  The keys of the returned map are the values \<open>targetBucket\<close> takes: a bucket name, or
  \<open>undefined\<close>. \<open>push\<close> on the array that \<open>getWithDefault\<close> returns changes the array
  stored in the map.
\<close>

definition bucketTransactions ::
  "string list \<Rightarrow> EnhancedTransaction list \<Rightarrow> (string option, EnhancedTransaction list) Map" where
  "bucketTransactions bucketNames txs =
     fold (\<lambda>tx buckets.
             let targetBucket = targetBucket_of bucketNames tx;
                 (arr, buckets') = getWithDefault buckets targetBucket []
             in Map_set targetBucket (arr @ [tx]) buckets')
          txs
          (fold (\<lambda>name buckets. Map_set (Some name) [] buckets) bucketNames [])"

section \<open>Chart series\<close>

record ISettings =
  assetAccountsPrefix :: string
  liabilityAccountsPrefix :: string

text \<open>One element of \<open>ChartData\<close>, \<open>{x, y}\<close>.\<close>

datatype ChartPoint = ChartPoint (point_x: string) (point_y: number)

definition calcNetWorth :: "(string, number) Map \<Rightarrow> ISettings \<Rightarrow> number" where
  "calcNetWorth balanceData settings =
     foldl (\<lambda>accum curr.
              case curr of (acct, bal) \<Rightarrow>
                if startsWith acct (assetAccountsPrefix settings) \<or>
                   startsWith acct (liabilityAccountsPrefix settings)
                then accum + bal else accum)
           0 balanceData"

definition makeNetWorthData ::
  "(string, (string, number) Map) Map \<Rightarrow> string list \<Rightarrow> ISettings \<Rightarrow> ChartPoint list" where
  "makeNetWorthData dailyAccountBalanceMap bucketNames settings =
     map (\<lambda>bucket.
            let balanceData = Map_get dailyAccountBalanceMap bucket;
                netWorth = (case balanceData of Some bd \<Rightarrow> calcNetWorth bd settings | None \<Rightarrow> 0)
            in ChartPoint bucket netWorth)
         bucketNames"

text \<open>\<open>m?.get(k)\<close>.\<close>

fun opt_get :: "('k, 'v) Map option \<Rightarrow> 'k \<Rightarrow> 'v option" where
  "opt_get None k = None"
| "opt_get (Some m) k = Map_get m k"

definition makeBalanceData ::
  "(string, (string, number) Map) Map \<Rightarrow> string list \<Rightarrow> string \<Rightarrow> string list \<Rightarrow> ChartPoint list" where
  "makeBalanceData dailyAccountBalanceMap bucketNames account allAccounts =
     (let accounts = findChildAccounts account allAccounts @ [account] in
      map (\<lambda>bucket.
             let accountBalances = Map_get dailyAccountBalanceMap bucket;
                 balance = foldl (\<lambda>prev currentAccount.
                                    or_zero (opt_get accountBalances currentAccount) + prev)
                                 0 accounts
             in ChartPoint bucket balance)
          bucketNames)"

definition makeDeltaData ::
  "(string, (string, number) Map) Map \<Rightarrow> string \<Rightarrow> string list \<Rightarrow> string \<Rightarrow> string list
     \<Rightarrow> ChartPoint list" where
  "makeDeltaData dailyAccountBalanceMap bucketBefore bucketNames account allAccounts =
     (let accounts = findChildAccounts account allAccounts @ [account] in
      map (\<lambda>i.
             let bucket = bucketNames ! i;
                 prevBucket = (if i = 0 then bucketBefore else bucketNames ! (i - 1));
                 accountBalances = Map_get dailyAccountBalanceMap bucket;
                 prevAccountBalances = Map_get dailyAccountBalanceMap prevBucket;
                 balance = foldl (\<lambda>prev currentAccount.
                                    let b1 = or_zero (opt_get prevAccountBalances currentAccount);
                                        b2 = or_zero (opt_get accountBalances currentAccount)
                                    in b2 - b1 + prev)
                                 0 accounts
             in ChartPoint bucket balance)
          [0 ..< length bucketNames])"

section \<open>The account tree\<close>

text \<open>A \<open>RootNode\<close> is the list of its children.\<close>

datatype TreeNode = TreeNode (exists: bool) (label: string) (children: "TreeNode list")

text \<open>
  The inner \<open>forEach\<close> over the segments of one path, from \<open>parentNode\<close> downwards, on the
  children of \<open>parentNode\<close>: the first child with the segment as its label is the node
  \<open>find\<close> returns, marked when the segment is the last one; without such a child a new node
  is pushed at the end. The remaining segments go into that node.
\<close>

fun insert_path :: "string list \<Rightarrow> TreeNode list \<Rightarrow> TreeNode list" where
  "insert_path [] cs = cs"
| "insert_path (segment # rest) [] =
     [TreeNode (rest = []) segment (insert_path rest [])]"
| "insert_path (segment # rest) (n # ns) =
     (if label n = segment
      then TreeNode (if rest = [] then True else exists n) (label n)
             (insert_path rest (children n)) # ns
      else n # insert_path (segment # rest) ns)"

text \<open>
  \<open>path ? [path, node.label].join(':') : node.label\<close>: an absent path and the empty
  string both take the second branch.
\<close>

fun renderTree :: "string list \<Rightarrow> TreeNode \<Rightarrow> string option \<Rightarrow> string list" where
  "renderTree output (TreeNode ex lab chs) path =
     (let newPath = (case path of
                       None \<Rightarrow> lab
                     | Some p \<Rightarrow> if p \<noteq> [] then p @ '':'' @ lab else lab);
          output' = (if length chs \<noteq> 1 \<and> ex then output @ [newPath] else output)
      in fold (\<lambda>child out. renderTree out child (Some newPath)) chs output')"

definition renderRoot :: "string list \<Rightarrow> TreeNode list \<Rightarrow> string list" where
  "renderRoot output chs = fold (\<lambda>child out. renderTree out child None) chs output"

definition buildTree :: "string list \<Rightarrow> TreeNode list" where
  "buildTree input = fold (\<lambda>path tree. insert_path (split_colon path) tree) input []"

definition removeDuplicateAccounts :: "string list \<Rightarrow> string list" where
  "removeDuplicateAccounts input = renderRoot [] (buildTree input)"

section \<open>Sparse balance changes\<close>

type_synonym DailyAccountBalanceChangeMap = "(string, (string, number) Map) Map"

definition add_line :: "Line \<Rightarrow> (string, number list) Map \<Rightarrow> (string, number list) Map" where
  "add_line line accounts =
     (case line of
        Comment c \<Rightarrow> accounts
      | Expenseline acc dealiased amt \<Rightarrow>
          (let (changes, accounts') = getWithDefault accounts dealiased []
           in Map_set dealiased (changes @ [amt]) accounts'))"

definition add_transaction ::
  "EnhancedTransaction \<Rightarrow> (string, (string, number list) Map) Map
     \<Rightarrow> (string, (string, number list) Map) Map" where
  "add_transaction tx txDateAccountMap =
     (let normalizedDate = travellerDate (date tx);
          (accounts, txDateAccountMap') = getWithDefault txDateAccountMap normalizedDate []
      in Map_set normalizedDate (fold add_line (expenselines tx) accounts) txDateAccountMap')"

definition rollUp :: "(string, number list) Map \<Rightarrow> (string, number) Map" where
  "rollUp accounts =
     fold (\<lambda>entry rolledUpAccountMap.
             case entry of (account, changes) \<Rightarrow>
               Map_set account (foldl (\<lambda>prev curr. prev + curr) 0 changes) rolledUpAccountMap)
          accounts []"

definition makeDailyAccountBalanceChangeMap ::
  "EnhancedTransaction list \<Rightarrow> DailyAccountBalanceChangeMap" where
  "makeDailyAccountBalanceChangeMap transactions =
     (let txDateAccountMap = fold add_transaction transactions []
      in fold (\<lambda>entry dateAccountTotalMap.
                 case entry of (txDate, accounts) \<Rightarrow>
                   Map_set txDate (rollUp accounts) dateAccountTotalMap)
              txDateAccountMap [])"

section \<open>Dense daily balances\<close>

definition zero_balances :: "string list \<Rightarrow> (string, number) Map" where
  "zero_balances accounts = fold (\<lambda>accountName previousData. Map_set accountName 0 previousData) accounts []"

definition next_balances ::
  "string list \<Rightarrow> (string, number) Map \<Rightarrow> (string, number) Map \<Rightarrow> (string, number) Map" where
  "next_balances accounts previousData innerInputMap =
     fold (\<lambda>accountName innerResultMap.
             let previousValue = or_zero (Map_get previousData accountName);
                 currentValue = or_zero (Map_get innerInputMap accountName)
             in Map_set accountName (previousValue + currentValue) innerResultMap)
          accounts []"

function makeDailyBalanceMap_loop ::
  "Zone \<Rightarrow> string list \<Rightarrow> DailyAccountBalanceChangeMap \<Rightarrow> Moment \<Rightarrow> Moment \<Rightarrow> (string, number) Map
     \<Rightarrow> (string, (string, number) Map) Map \<Rightarrow> (string, (string, number) Map) Map" where
  "makeDailyBalanceMap_loop zone accounts input currentDate lastDate previousData result =
     (if isSameOrBefore currentDate lastDate
      then (let currentDateStr = travellerDate currentDate in
            case Map_get input currentDateStr of
              Some innerInputMap \<Rightarrow>
                (let innerResultMap = next_balances accounts previousData innerInputMap
                 in makeDailyBalanceMap_loop zone accounts input (add_one zone Day currentDate) lastDate
                      innerResultMap (Map_set currentDateStr innerResultMap result))
            | None \<Rightarrow>
                makeDailyBalanceMap_loop zone accounts input (add_one zone Day currentDate) lastDate
                  previousData (Map_set currentDateStr previousData result))
      else result)"
  by pat_completeness auto
termination
  by (relation "measures [\<lambda>(z, a, i, c, e, p, r). nat (year e - year c + 1),
                          \<lambda>(z, a, i, c, e, p, r). 367 - dayOfYear c]")
     (auto simp: isSameOrBefore_def add_one_def daysInYear_def split: if_splits)

definition makeDailyBalanceMap ::
  "Zone \<Rightarrow> string list \<Rightarrow> DailyAccountBalanceChangeMap \<Rightarrow> Moment \<Rightarrow> Moment
     \<Rightarrow> (string, (string, number) Map) Map" where
  "makeDailyBalanceMap zone accounts input firstDate lastDate =
     makeDailyBalanceMap_loop zone accounts input firstDate lastDate (zero_balances accounts) []"

section \<open>Notions of the specification\<close>

text \<open>
  The balance of an account together with its descendants on one bucket, as the
  specification words it: the candidates of the account universe that read
  \<open>account + ":"\<close> followed by anything, and the account itself, an entry missing from the
  dense map counting as \<open>0\<close>.
\<close>

definition balance_with_descendants ::
  "(string, (string, number) Map) Map \<Rightarrow> string list \<Rightarrow> string \<Rightarrow> string \<Rightarrow> number" where
  "balance_with_descendants dense allAccounts acct bucket =
     sum_list (map (\<lambda>a. case Map_get dense bucket of
                            None \<Rightarrow> 0
                          | Some balances \<Rightarrow> (case Map_get balances a of None \<Rightarrow> 0 | Some v \<Rightarrow> v))
                   (filter (\<lambda>c. \<exists>rest. c = acct @ '':'' @ rest) allAccounts @ [acct]))"

text \<open>
  Calendar days, as year and day of the year: the day of a date, the days of the calendar,
  their order, the day after and the day before, and the days from one day to another, both
  ends included.
\<close>

type_synonym CalendarDay = "int \<times> nat"




definition day_less :: "CalendarDay \<Rightarrow> CalendarDay \<Rightarrow> bool" where
  "day_less A B = (fst A < fst B \<or> (fst A = fst B \<and> snd A < snd B))"






declare makeBucketNames_loop.simps [simp del]
declare makeDailyBalanceMap_loop.simps [simp del]
declare nat_toString.simps [simp del]

text \<open>Reading a decimal numeral back: the inverse of \<open>nat_toString\<close>, also after padding.\<close>

definition digit_of :: "char \<Rightarrow> nat" where
  "digit_of c = of_char c - 48"

definition decimal_value :: "string \<Rightarrow> nat" where
  "decimal_value s = foldl (\<lambda>acc c. 10 * acc + digit_of c) 0 s"

text \<open>
  The bucket key of a calendar day as the specification words it,
  \<open>{year}.{zero-padded 3-digit day-of-year}\<close>: the year in decimal without leading zeros
  (after a minus sign when negative), a dot, and, as the last three characters, decimal
  digits whose value is the day of the year. \<open>day_key\<close> is the key the code makes for a day.
\<close>

definition is_digit :: "char \<Rightarrow> bool" where
  "is_digit c = (c \<in> set ''0123456789'')"

definition plain_decimal :: "nat \<Rightarrow> string \<Rightarrow> bool" where
  "plain_decimal n s =
     (s \<noteq> [] \<and> list_all is_digit s \<and> decimal_value s = n
      \<and> (length s = 1 \<or> hd s \<noteq> CHR ''0''))"

definition year_text :: "int \<Rightarrow> string \<Rightarrow> bool" where
  "year_text y s =
     (if y < 0 then s \<noteq> [] \<and> hd s = CHR ''-'' \<and> plain_decimal (nat (- y)) (tl s)
      else plain_decimal (nat y) s)"

definition is_bucket_key :: "CalendarDay \<Rightarrow> string \<Rightarrow> bool" where
  "is_bucket_key D k =
     (4 \<le> length k
      \<and> year_text (fst D) (take (length k - 4) k)
      \<and> k ! (length k - 4) = CHR ''.''
      \<and> list_all is_digit (drop (length k - 3) k)
      \<and> decimal_value (drop (length k - 3) k) = snd D)"

definition day_key :: "CalendarDay \<Rightarrow> string" where
  "day_key D = travellerDate \<lparr>year = fst D, dayOfYear = snd D, timeOfDay = 0\<rparr>"

text \<open>A per-account map that has exactly the tracked accounts as its keys, each once.\<close>

definition tracks :: "string list \<Rightarrow> (string, number) Map \<Rightarrow> bool" where
  "tracks accounts m = (fst ` set m = set accounts \<and> distinct (map fst m))"




text \<open>
  The amounts that the account lines of the transactions dated on day key \<open>k\<close> give to
  account \<open>a\<close>, in the order of the transactions and of their lines; a comment line gives
  none. The account of a line is its de-aliased account name.
\<close>

fun line_amounts :: "string \<Rightarrow> Line \<Rightarrow> number list" where
  "line_amounts a (Comment c) = []"
| "line_amounts a (Expenseline acc dealiased amt) = (if dealiased = a then [amt] else [])"

definition amounts_on :: "string \<Rightarrow> string \<Rightarrow> EnhancedTransaction list \<Rightarrow> number list" where
  "amounts_on k a txs =
     concat (map (\<lambda>tx. if travellerDate (date tx) = k
                        then concat (map (line_amounts a) (expenselines tx)) else [])
                 txs)"

text \<open>
  For the map under construction: the changes recorded for an account, and for a day and an
  account; and the invariant that no key is repeated and no recorded list is empty.
\<close>

definition changes_of :: "(string, number list) Map \<Rightarrow> string \<Rightarrow> number list" where
  "changes_of accs a = (case Map_get accs a of None \<Rightarrow> [] | Some l \<Rightarrow> l)"

definition day_changes :: "(string, (string, number list) Map) Map \<Rightarrow> string \<Rightarrow> string \<Rightarrow> number list" where
  "day_changes m k a = (case Map_get m k of None \<Rightarrow> [] | Some accs \<Rightarrow> changes_of accs a)"

definition well_kept :: "(string, number list) Map \<Rightarrow> bool" where
  "well_kept accs = (distinct (map fst accs) \<and> (\<forall>e \<in> set accs. snd e \<noteq> []))"

definition all_well_kept :: "(string, (string, number list) Map) Map \<Rightarrow> bool" where
  "all_well_kept m = (distinct (map fst m) \<and> (\<forall>e \<in> set m. well_kept (snd e)))"

text \<open>
  \<open>a <= b\<close> on strings, and the bucket of a transaction key as the specification words it:
  the last bucket key that is not greater than the key, and the first bucket key when there
  is none.
\<close>

definition str_le :: "string \<Rightarrow> string \<Rightarrow> bool" where
  "str_le a b = (\<not> str_less b a)"

definition bucket_for :: "string list \<Rightarrow> string \<Rightarrow> string option" where
  "bucket_for bucketNames txKey =
     (case filter (\<lambda>b. str_le b txKey) bucketNames of
        [] \<Rightarrow> (case bucketNames of [] \<Rightarrow> None | b # bs \<Rightarrow> Some b)
      | b # bs \<Rightarrow> Some (last (b # bs)))"

text \<open>
  The array stored under a key of the bucket map (empty when the key is absent), and the
  body of the \<open>forEach\<close> over the transactions for a given choice of target bucket.
\<close>

definition bucket_list :: "('k, 'v list) Map \<Rightarrow> 'k \<Rightarrow> 'v list" where
  "bucket_list m k = (case Map_get m k of None \<Rightarrow> [] | Some l \<Rightarrow> l)"

definition place :: "('a \<Rightarrow> 'k) \<Rightarrow> 'a \<Rightarrow> ('k, 'a list) Map \<Rightarrow> ('k, 'a list) Map" where
  "place t tx buckets =
     (let targetBucket = t tx; (arr, buckets') = getWithDefault buckets targetBucket []
      in Map_set targetBucket (arr @ [tx]) buckets')"

text \<open>
  The specification of the account tree, on the segment lists of the paths and without a
  tree. \<open>heads Q\<close> are the first segments of the segment lists \<open>Q\<close>, each once, in
  first-seen order; \<open>rests_after s Q\<close> are the rests of those that begin with \<open>s\<close>;
  \<open>join_colon\<close> joins segments with colons.
\<close>

definition first_seen :: "'a list \<Rightarrow> 'a list" where
  "first_seen xs = fold (\<lambda>x acc. if x \<in> set acc then acc else acc @ [x]) xs []"

definition heads :: "string list list \<Rightarrow> string list" where
  "heads Q = first_seen (map hd (filter (\<lambda>q. q \<noteq> []) Q))"

definition rests_after :: "string \<Rightarrow> string list list \<Rightarrow> string list list" where
  "rests_after s Q = map tl (filter (\<lambda>q. q \<noteq> [] \<and> hd q = s) Q)"

fun join_colon :: "string list \<Rightarrow> string" where
  "join_colon [] = []"
| "join_colon [s] = s"
| "join_colon (s # t # r) = s @ '':'' @ join_colon (t # r)"

text \<open>
  A list of nodes represents the segment lists \<open>Q\<close> when its labels are \<open>heads Q\<close> in
  that order and each node is marked exactly when a segment list ends at it and has children
  that represent the rests.
\<close>

fun repr_node :: "TreeNode \<Rightarrow> string list list \<Rightarrow> bool" where
  "repr_node (TreeNode ex lab chs) Q =
     (ex = ([] \<in> set Q) \<and> map label chs = heads Q
      \<and> (\<forall>c \<in> set chs. repr_node c (rests_after (label c) Q)))"

definition represents :: "TreeNode list \<Rightarrow> string list list \<Rightarrow> bool" where
  "represents cs Q =
     (map label cs = heads Q \<and> (\<forall>c \<in> set cs. repr_node c (rests_after (label c) Q)))"

text \<open>
  The walk the specification describes: depth first, a node before its children, children
  in first-seen order; the node reached by the segments \<open>p @ [s]\<close> gives its colon-joined
  path exactly when some path ends at it and its number of children is not 1.
\<close>

function walk :: "string list \<Rightarrow> string list list \<Rightarrow> string list" where
  "walk p Q =
     concat (map (\<lambda>s. (if [] \<in> set (rests_after s Q) \<and> length (heads (rests_after s Q)) \<noteq> 1
                         then [join_colon (p @ [s])] else [])
                        @ walk (p @ [s]) (rests_after s Q))
                 (heads Q))"
  by pat_completeness auto
termination
proof (relation "measure (\<lambda>(p, Q). sum_list (map length Q))")
  show "wf (measure (\<lambda>(p, Q). sum_list (map length Q)))" by simp
next
  fix p :: "string list" and Q :: "string list list" and s :: string
  assume s: "s \<in> set (heads Q)"
  have sub: "set (first_seen xs) \<subseteq> set xs" for xs :: "string list"
  proof (induction xs rule: rev_induct)
    case Nil
    show ?case by (simp add: first_seen_def)
  next
    case (snoc x xs)
    then show ?case by (auto simp: first_seen_def)
  qed
  have le: "sum_list (map length (rests_after s R)) \<le> sum_list (map length R)" for R
    by (induction R) (auto simp: rests_after_def)
  have lt: "q \<in> set R \<Longrightarrow> q \<noteq> [] \<Longrightarrow> hd q = s \<Longrightarrow>
            sum_list (map length (rests_after s R)) < sum_list (map length R)" for q R
  proof (induction R)
    case Nil
    then show ?case by simp
  next
    case (Cons r R)
    show ?case
    proof (cases "r \<noteq> [] \<and> hd r = s")
      case True
      then have "length (tl r) < length r" by (cases r) simp_all
      moreover have "rests_after s (r # R) = tl r # rests_after s R" using True by (simp add: rests_after_def)
      ultimately show ?thesis using le[of R] by simp
    next
      case False
      then have "q \<in> set R" using Cons.prems by auto
      moreover have "rests_after s (r # R) = rests_after s R" using False by (auto simp: rests_after_def)
      ultimately show ?thesis using Cons by simp
    qed
  qed
  obtain q where "q \<in> set Q" "q \<noteq> []" "hd q = s"
    using s sub[of "map hd (filter (\<lambda>q. q \<noteq> []) Q)"] by (auto simp: heads_def)
  then show "((p @ [s], rests_after s Q), (p, Q)) \<in> measure (\<lambda>(p, Q). sum_list (map length Q))"
    using lt by simp
qed

declare walk.simps [simp del]

text \<open>
  The \<open>path\<close> argument that \<open>renderTree\<close> receives at the node reached by the segments
  \<open>p\<close>, when no emptiness of a path string interferes; and the condition on the segment
  lists under which none does: an empty first segment is a whole path.
\<close>

definition code_path :: "string list \<Rightarrow> string option" where
  "code_path p = (if p = [] then None else Some (join_colon p))"

definition plain_roots :: "string list list \<Rightarrow> bool" where
  "plain_roots Q = (\<forall>q \<in> set Q. q \<noteq> [] \<and> hd q = [] \<longrightarrow> tl q = [])"

section \<open>Strings\<close>

lemma startsWith_iff: "startsWith s p \<longleftrightarrow> (\<exists>r. s = p @ r)"
  by (induction s p rule: startsWith.induct) auto

lemma or_zero_case: "or_zero e = (case e of None \<Rightarrow> 0 | Some v \<Rightarrow> v)"
  by (cases e) auto

section \<open>Child accounts and chart series\<close>

text \<open>
  C6. \<open>findChildAccounts\<close> keeps, in their order, exactly the candidates that consist of the
  target, a colon, and anything after it.
\<close>

theorem findChildAccounts_segment_boundary:
  "findChildAccounts target candidates =
     filter (\<lambda>c. \<exists>rest. c = target @ '':'' @ rest) candidates"
  by (simp add: findChildAccounts_def startsWith_iff)

theorem findChildAccounts_segment_boundary_witness:
  "findChildAccounts ''Assets:Bank'' [''Assets:Bank'', ''Assets:Bank:Checking'', ''Assets:Banking'']
     = [''Assets:Bank:Checking'']"
  using findChildAccounts_segment_boundary
    [of "''Assets:Bank''" "[''Assets:Bank'', ''Assets:Bank:Checking'', ''Assets:Banking'']"]
  by simp

lemma foldl_cond_add:
  "foldl (\<lambda>accum curr. case curr of (acct, bal) \<Rightarrow> if P acct then accum + bal else accum)
         (z :: number) xs
     = z + sum_list (map snd (filter (\<lambda>e. P (fst e)) xs))"
  by (induction xs arbitrary: z) (auto split: prod.splits)

lemma calcNetWorth_sum:
  "calcNetWorth balanceData settings =
     sum_list (map snd (filter (\<lambda>e. (\<exists>r. fst e = assetAccountsPrefix settings @ r) \<or>
                                      (\<exists>r. fst e = liabilityAccountsPrefix settings @ r))
                               balanceData))"
  by (simp add: calcNetWorth_def foldl_cond_add startsWith_iff)

text \<open>
  C7. \<open>makeNetWorthData\<close> gives one point per bucket, in bucket order; its value is the sum
  of the balances, on that bucket, of the accounts whose path begins with the asset prefix
  or with the liability prefix (as strings), and \<open>0\<close> for a bucket absent from the dense map.
\<close>

theorem makeNetWorthData_prefix_sum:
  "makeNetWorthData dense bucketNames settings =
     map (\<lambda>bucket. ChartPoint bucket
            (case Map_get dense bucket of
               None \<Rightarrow> 0
             | Some balances \<Rightarrow>
                 sum_list (map snd (filter (\<lambda>e. (\<exists>r. fst e = assetAccountsPrefix settings @ r) \<or>
                                                  (\<exists>r. fst e = liabilityAccountsPrefix settings @ r))
                                           balances))))
         bucketNames"
  by (auto simp: makeNetWorthData_def calcNetWorth_sum split: option.splits)

theorem makeNetWorthData_prefix_sum_witness:
  "makeNetWorthData
     [(''2023.150'', [(''Assets:Bank'', 100), (''Liabilities:Credit'', - 40), (''Income:Salary'', 500)])]
     [''2023.150'', ''2023.151'']
     \<lparr>assetAccountsPrefix = ''Assets'', liabilityAccountsPrefix = ''Liabilities''\<rparr>
   = [ChartPoint ''2023.150'' 60, ChartPoint ''2023.151'' 0]"
  using makeNetWorthData_prefix_sum
    [of "[(''2023.150'', [(''Assets:Bank'', 100), (''Liabilities:Credit'', - 40), (''Income:Salary'', 500)])]"
        "[''2023.150'', ''2023.151'']"
        "\<lparr>assetAccountsPrefix = ''Assets'', liabilityAccountsPrefix = ''Liabilities''\<rparr>"]
  by (simp add: Map_get_def)

lemma foldl_delta:
  "foldl (\<lambda>prev a. g a - f a + prev) (z :: number) xs
     = z + (sum_list (map g xs) - sum_list (map f xs))"
  by (induction xs arbitrary: z) auto

lemma balance_with_descendants_eq:
  "balance_with_descendants dense allAccounts acct bucket =
     sum_list (map (\<lambda>a. or_zero (opt_get (Map_get dense bucket) a))
                   (findChildAccounts acct allAccounts @ [acct]))"
proof -
  have "(case Map_get dense bucket of None \<Rightarrow> 0
         | Some balances \<Rightarrow> (case Map_get balances a of None \<Rightarrow> 0 | Some v \<Rightarrow> v))
        = or_zero (opt_get (Map_get dense bucket) a)" for a
    by (cases "Map_get dense bucket") (simp_all add: or_zero_case)
  then show ?thesis
    by (simp add: balance_with_descendants_def findChildAccounts_def startsWith_iff)
qed

text \<open>
  C8. \<open>makeDeltaData\<close> gives one point per bucket, in order; the value at bucket \<open>i\<close> is the
  balance of the account with its descendants on bucket \<open>i\<close> minus that balance on bucket
  \<open>i - 1\<close>, or on \<open>bucketBefore\<close> for \<open>i = 0\<close>, missing entries counting as \<open>0\<close>.
\<close>

theorem makeDeltaData_differences:
  "makeDeltaData dense bucketBefore bucketNames acct allAccounts =
     map (\<lambda>i. ChartPoint (bucketNames ! i)
            (balance_with_descendants dense allAccounts acct (bucketNames ! i)
             - balance_with_descendants dense allAccounts acct
                 (if i = 0 then bucketBefore else bucketNames ! (i - 1))))
         [0 ..< length bucketNames]"
  by (simp add: makeDeltaData_def Let_def foldl_delta balance_with_descendants_eq)

theorem makeDeltaData_differences_witness:
  "makeDeltaData
     [(''2023.149'', [(''Assets:Bank'', 40)]), (''2023.150'', [(''Assets:Bank'', 50)]),
      (''2023.151'', [(''Assets:Bank'', 70)]), (''2023.152'', [(''Assets:Bank'', 65)])]
     ''2023.149'' [''2023.150'', ''2023.151'', ''2023.152''] ''Assets:Bank'' [''Assets:Bank'']
   = [ChartPoint ''2023.150'' 10, ChartPoint ''2023.151'' 20, ChartPoint ''2023.152'' (- 5)]"
  using makeDeltaData_differences
    [of "[(''2023.149'', [(''Assets:Bank'', 40)]), (''2023.150'', [(''Assets:Bank'', 50)]),
          (''2023.151'', [(''Assets:Bank'', 70)]), (''2023.152'', [(''Assets:Bank'', 65)])]"
        "''2023.149''" "[''2023.150'', ''2023.151'', ''2023.152'']" "''Assets:Bank''"
        "[''Assets:Bank'']"]
  by (simp add: balance_with_descendants_def Map_get_def upt_rec)

section \<open>Date keys are injective\<close>

lemma digit_cases: "n < 10 \<Longrightarrow> n \<in> {0, 1, 2, 3, 4, 5, 6, 7, 8, 9::nat}"
  by auto

lemma digit_of_digit_char: "n < 10 \<Longrightarrow> digit_of (digit_char n) = n"
  using digit_cases[of n] by (auto simp: digit_of_def digit_char_def)

lemma digit_char_in: "n < 10 \<Longrightarrow> digit_char n \<in> set ''0123456789''"
  using digit_cases[of n] by (auto simp: digit_char_def)

lemma decimal_value_snoc: "decimal_value (s @ [c]) = 10 * decimal_value s + digit_of c"
  by (simp add: decimal_value_def)

lemma decimal_value_nat_toString: "decimal_value (nat_toString n) = n"
proof (induction n rule: nat_toString.induct)
  case (1 n)
  show ?case
  proof (cases "n < 10")
    case True
    then show ?thesis
      by (subst nat_toString.simps) (simp add: decimal_value_def digit_of_digit_char)
  next
    case False
    then show ?thesis
      using 1 by (subst nat_toString.simps) (simp add: decimal_value_snoc digit_of_digit_char)
  qed
qed

lemma set_nat_toString: "set (nat_toString n) \<subseteq> set ''0123456789''"
proof (induction n rule: nat_toString.induct)
  case (1 n)
  show ?case
  proof (cases "n < 10")
    case True
    then show ?thesis
      using digit_char_in[of n] by (subst nat_toString.simps) simp
  next
    case False
    then show ?thesis
      using 1 digit_char_in[of "n mod 10"] by (subst nat_toString.simps) simp
  qed
qed


lemma foldl_zeros: "foldl (\<lambda>acc c. 10 * acc + digit_of c) 0 (replicate k (CHR ''0'')) = 0"
  by (induction k) (simp_all add: digit_of_def)

lemma decimal_value_padStart: "decimal_value (padStart k (CHR ''0'') s) = decimal_value s"
  by (simp add: decimal_value_def padStart_def foldl_zeros)







section \<open>The text of a bucket key\<close>

lemma nat_toString_nonempty: "nat_toString n \<noteq> []"
  by (subst nat_toString.simps) simp

lemma digits_nat_toString: "list_all is_digit (nat_toString n)"
  unfolding list_all_iff is_digit_def using set_nat_toString[of n] by blast

lemma hd_nat_toString: "hd (nat_toString n) = CHR ''0'' \<Longrightarrow> n = 0"
proof (induction n rule: nat_toString.induct)
  case (1 n)
  show ?case
  proof (cases "n < 10")
    case True
    then have "nat_toString n = [digit_char n]" by (subst nat_toString.simps) simp
    then show ?thesis using "1.prems" True digit_cases[of n] by (auto simp: digit_char_def)
  next
    case False
    then have "nat_toString n = nat_toString (n div 10) @ [digit_char (n mod 10)]"
      by (subst nat_toString.simps) simp
    then have "hd (nat_toString (n div 10)) = CHR ''0''"
      using "1.prems" nat_toString_nonempty[of "n div 10"] by simp
    then have "n div 10 = 0" using "1.IH" False by simp
    then show ?thesis using False by simp
  qed
qed

lemma length_nat_toString: "n < 10 ^ k \<Longrightarrow> 0 < k \<Longrightarrow> length (nat_toString n) \<le> k"
proof (induction n arbitrary: k rule: nat_toString.induct)
  case (1 n)
  show ?case
  proof (cases "n < 10")
    case True
    then have "nat_toString n = [digit_char n]" by (subst nat_toString.simps) simp
    then show ?thesis using "1.prems" by simp
  next
    case False
    then obtain j where k: "k = Suc j" using "1.prems"(2) by (cases k) auto
    have j: "0 < j" using False "1.prems"(1) k by (cases j) auto
    have "n < 10 ^ j * 10" using "1.prems"(1) k by simp
    then have d: "n div 10 < 10 ^ j" by (rule less_mult_imp_div_less)
    have "length (nat_toString (n div 10)) \<le> j" by (rule "1.IH"[OF False d j])
    moreover have "nat_toString n = nat_toString (n div 10) @ [digit_char (n mod 10)]"
      using False by (subst nat_toString.simps) simp
    ultimately show ?thesis using k by simp
  qed
qed

lemma plain_decimal_nat_toString: "plain_decimal n (nat_toString n)"
proof -
  have "length (nat_toString n) = 1 \<or> hd (nat_toString n) \<noteq> CHR ''0''"
  proof (cases "hd (nat_toString n) = CHR ''0''")
    case True
    then have "n = 0" by (rule hd_nat_toString)
    then have "nat_toString n = [digit_char 0]" by (subst nat_toString.simps) simp
    then show ?thesis by simp
  next
    case False
    then show ?thesis by simp
  qed
  then show ?thesis
    by (simp add: plain_decimal_def nat_toString_nonempty digits_nat_toString
          decimal_value_nat_toString)
qed

lemma year_text_int_toString: "year_text y (int_toString y)"
  by (simp add: year_text_def int_toString_def plain_decimal_nat_toString)

lemma three_digits_padStart:
  assumes "n < 1000"
  shows "length (padStart 3 (CHR ''0'') (nat_toString n)) = 3
         \<and> list_all is_digit (padStart 3 (CHR ''0'') (nat_toString n))
         \<and> decimal_value (padStart 3 (CHR ''0'') (nat_toString n)) = n"
proof -
  have "length (nat_toString n) \<le> 3"
    using assms length_nat_toString[of n 3] by simp
  moreover have "list_all is_digit (replicate k (CHR ''0''))" for k
    by (induction k) (simp_all add: is_digit_def)
  ultimately show ?thesis
    using digits_nat_toString[of n] decimal_value_padStart[of 3 "nat_toString n"]
    by (simp add: padStart_def decimal_value_nat_toString)
qed

lemma is_bucket_key_iff:
  "is_bucket_key D k =
     (\<exists>ys ds. k = ys @ ''.'' @ ds \<and> year_text (fst D) ys
        \<and> length ds = 3 \<and> list_all is_digit ds \<and> decimal_value ds = snd D)"
proof
  assume a: "is_bucket_key D k"
  then have g: "4 \<le> length k"
    by (simp add: is_bucket_key_def)
  then have n: "length k - 4 < length k" and m: "Suc (length k - 4) = length k - 3"
    by arith+
  have "k = take (length k - 4) k @ k ! (length k - 4) # drop (Suc (length k - 4)) k"
    using n by (rule id_take_nth_drop)
  then have "k = take (length k - 4) k @ ''.'' @ drop (length k - 3) k"
    using a m by (simp add: is_bucket_key_def)
  moreover have "length (drop (length k - 3) k) = 3"
    using g by simp
  ultimately show "\<exists>ys ds. k = ys @ ''.'' @ ds \<and> year_text (fst D) ys
        \<and> length ds = 3 \<and> list_all is_digit ds \<and> decimal_value ds = snd D"
    using a unfolding is_bucket_key_def by blast
next
  assume "\<exists>ys ds. k = ys @ ''.'' @ ds \<and> year_text (fst D) ys
        \<and> length ds = 3 \<and> list_all is_digit ds \<and> decimal_value ds = snd D"
  then obtain ys ds where k: "k = ys @ ''.'' @ ds" and y: "year_text (fst D) ys"
    and l: "length ds = 3" and d: "list_all is_digit ds" and v: "decimal_value ds = snd D"
    by blast
  have n: "length k = length ys + 4" using k l by simp
  have t: "take (length k - 4) k = ys" unfolding n using k by simp
  have r: "drop (length k - 3) k = ds" using k l by simp
  have c: "k ! (length k - 4) = CHR ''.''" unfolding n using k by (simp add: nth_append)
  show "is_bucket_key D k"
    unfolding is_bucket_key_def t r c using n y d v by simp
qed

lemma is_bucket_key_day_key:
  assumes "snd D < 1000"
  shows "is_bucket_key D (day_key D)"
proof -
  let ?ys = "int_toString (fst D)"
  let ?ds = "padStart 3 (CHR ''0'') (nat_toString (snd D))"
  have "day_key D = ?ys @ ''.'' @ ?ds"
    by (simp add: day_key_def travellerDate_def)
  moreover have "year_text (fst D) ?ys" by (rule year_text_int_toString)
  moreover have "length ?ds = 3 \<and> list_all is_digit ?ds \<and> decimal_value ?ds = snd D"
    using assms by (rule three_digits_padStart)
  ultimately show ?thesis
    unfolding is_bucket_key_iff by blast
qed

text \<open>
  The key of day 8 of 2023 is \<open>2023.008\<close>; the day written with fewer or more digits, or
  the year with a leading zero, is not a key.
\<close>

lemma is_bucket_key_examples:
  "is_bucket_key (2023, 8) ''2023.008''
   \<and> \<not> is_bucket_key (2023, 8) ''2023.8''
   \<and> \<not> is_bucket_key (2023, 8) ''2023.08''
   \<and> \<not> is_bucket_key (2023, 8) ''2023.0008''
   \<and> \<not> is_bucket_key (2023, 8) ''02023.008''
   \<and> is_bucket_key (-2, 365) ''-2.365''"
  by (simp add: is_bucket_key_def year_text_def plain_decimal_def is_digit_def
        decimal_value_def digit_of_def)

section \<open>The calendar\<close>

lemma daysInYear_pos: "1 \<le> daysInYear y" by (simp add: daysInYear_def)






















section \<open>Maps\<close>

lemma Map_get_Map_set: "Map_get (Map_set k v m) k' = (if k' = k then Some v else Map_get m k')"
  by (induction m) (auto simp: Map_get_def)

lemma keys_Map_set:
  "map fst (Map_set k v m) = (if k \<in> fst ` set m then map fst m else map fst m @ [k])"
  by (induction m) auto

lemma Map_set_fresh: "k \<notin> fst ` set m \<Longrightarrow> Map_set k v m = m @ [(k, v)]"
  by (induction m) auto

lemma set_Map_set_subset: "set (Map_set k v m) \<subseteq> insert (k, v) (set m)"
  by (induction m) auto

lemma Map_get_None_iff: "Map_get m k = None \<longleftrightarrow> k \<notin> fst ` set m"
  by (simp add: Map_get_def map_of_eq_None_iff)

lemma fold_Map_set_keys:
  "fst ` set (fold (\<lambda>a m. Map_set a (f a) m) xs m0) = fst ` set m0 \<union> set xs"
proof (induction xs arbitrary: m0)
  case Nil
  show ?case by simp
next
  case (Cons x xs)
  have "fst ` set (Map_set x (f x) m0) = insert x (fst ` set m0)"
    using keys_Map_set[of x "f x" m0] by (metis (no_types, lifting) Un_insert_right append_Nil2 insert_absorb list.set(2) list.set_map set_append)
  then show ?case using Cons.IH[of "Map_set x (f x) m0"] by auto
qed

lemma fold_Map_set_distinct:
  "distinct (map fst m0) \<Longrightarrow> distinct (map fst (fold (\<lambda>a m. Map_set a (f a) m) xs m0))"
proof (induction xs arbitrary: m0)
  case Nil
  then show ?case by simp
next
  case (Cons x xs)
  have "distinct (map fst (Map_set x (f x) m0))"
    using Cons.prems by (auto simp: keys_Map_set)
  then show ?case using Cons.IH by simp
qed

lemma fold_Map_set_get:
  "Map_get (fold (\<lambda>a m. Map_set a (f a) m) xs m0) k
     = (if k \<in> set xs then Some (f k) else Map_get m0 k)"
  by (induction xs arbitrary: m0) (auto simp: Map_get_Map_set)

section \<open>Dense daily balances: the keys of a day\<close>

lemma tracks_zero_balances: "tracks accounts (zero_balances accounts)"
  unfolding tracks_def zero_balances_def
  using fold_Map_set_keys[of "\<lambda>_. 0" accounts "[]"] fold_Map_set_distinct[of "[]" "\<lambda>_. 0" accounts]
  by simp

lemma next_balances_fold:
  "next_balances accounts prev inner =
     fold (\<lambda>a m. Map_set a (or_zero (Map_get prev a) + or_zero (Map_get inner a)) m) accounts []"
  by (simp add: next_balances_def Let_def)

lemma tracks_next_balances: "tracks accounts (next_balances accounts prev inner)"
  unfolding tracks_def next_balances_fold
  using fold_Map_set_keys[of "\<lambda>a. or_zero (Map_get prev a) + or_zero (Map_get inner a)" accounts "[]"]
    fold_Map_set_distinct[of "[]" "\<lambda>a. or_zero (Map_get prev a) + or_zero (Map_get inner a)" accounts]
  by simp

lemma loop_tracks:
  "tracks accounts prev \<Longrightarrow> \<forall>e\<in>set result. tracks accounts (snd e) \<Longrightarrow>
   \<forall>e\<in>set (makeDailyBalanceMap_loop zone accounts input c l prev result).
      tracks accounts (snd e)"
proof (induction zone accounts input c l prev result rule: makeDailyBalanceMap_loop.induct)
  case (1 zone accounts input c l prev result)
  show ?case
  proof (cases "isSameOrBefore c l")
    case False
    then show ?thesis using "1.prems" by (subst makeDailyBalanceMap_loop.simps) simp
  next
    case le: True
    show ?thesis
    proof (cases "Map_get input (travellerDate c)")
      case None
      have "\<forall>e\<in>set (Map_set (travellerDate c) prev result). tracks accounts (snd e)"
        using "1.prems" set_Map_set_subset[of "travellerDate c" prev result] by auto
      then show ?thesis
        using "1.IH"(1)[OF le refl None "1.prems"(1)] le None
        by (subst makeDailyBalanceMap_loop.simps) simp
    next
      case (Some inner)
      let ?n = "next_balances accounts prev inner"
      have "\<forall>e\<in>set (Map_set (travellerDate c) ?n result). tracks accounts (snd e)"
        using "1.prems" set_Map_set_subset[of "travellerDate c" ?n result] tracks_next_balances
        by auto
      then show ?thesis
        using "1.IH"(2)[OF le refl Some refl tracks_next_balances] le Some
        by (subst makeDailyBalanceMap_loop.simps) (simp add: Let_def)
    qed
  qed
qed

text \<open>
  C10. Every per-day map in the result of \<open>makeDailyBalanceMap\<close> has exactly the accounts of
  the accounts argument as its keys, each once: an account that only the sparse map names
  does not appear, and every listed account has a balance on every day.
\<close>

theorem makeDailyBalanceMap_keys_are_accounts:
  "\<forall>e \<in> set (makeDailyBalanceMap zone accounts input firstDate lastDate).
      fst ` set (snd e) = set accounts \<and> distinct (map fst (snd e))
      \<and> (\<forall>a \<in> set accounts. \<exists>v. Map_get (snd e) a = Some v)"
proof -
  have "\<forall>e \<in> set (makeDailyBalanceMap zone accounts input firstDate lastDate). tracks accounts (snd e)"
    unfolding makeDailyBalanceMap_def
    by (rule loop_tracks) (simp_all add: tracks_zero_balances)
  then show ?thesis
    unfolding tracks_def using Map_get_None_iff
    by (metis not_None_eq)
qed

lemma makeDailyBalanceMap_example:
  "makeDailyBalanceMap steady_zone [''Assets:Bank'', ''Expenses:Food'']
     [(''2023.002'', [(''Assets:Bank'', 5), (''Income:Salary'', 7)])]
     \<lparr>year = 2023, dayOfYear = 1, timeOfDay = 0\<rparr> \<lparr>year = 2023, dayOfYear = 3, timeOfDay = 0\<rparr>
   = [(''2023.001'', [(''Assets:Bank'', 0), (''Expenses:Food'', 0)]),
      (''2023.002'', [(''Assets:Bank'', 5), (''Expenses:Food'', 0)]),
      (''2023.003'', [(''Assets:Bank'', 5), (''Expenses:Food'', 0)])]"
  by (simp add: makeDailyBalanceMap_def makeDailyBalanceMap_loop.simps zero_balances_def
        next_balances_def isSameOrBefore_def add_one_def daysInYear_def isLeapYear_def
        travellerDate_def int_toString_def nat_toString.simps padStart_def digit_char_def
        Map_get_def Let_def numeral_2_eq_2 steady_zone_def)

theorem makeDailyBalanceMap_keys_are_accounts_witness:
  "makeDailyBalanceMap steady_zone [''Assets:Bank'', ''Expenses:Food'']
     [(''2023.002'', [(''Assets:Bank'', 5), (''Income:Salary'', 7)])]
     \<lparr>year = 2023, dayOfYear = 1, timeOfDay = 0\<rparr> \<lparr>year = 2023, dayOfYear = 3, timeOfDay = 0\<rparr>
     = [(''2023.001'', [(''Assets:Bank'', 0), (''Expenses:Food'', 0)]),
        (''2023.002'', [(''Assets:Bank'', 5), (''Expenses:Food'', 0)]),
        (''2023.003'', [(''Assets:Bank'', 5), (''Expenses:Food'', 0)])]
   \<and> list_all (\<lambda>e. fst ` set (snd e) = set [''Assets:Bank'', ''Expenses:Food'']
                    \<and> distinct (map fst (snd e))
                    \<and> (\<forall>a \<in> set [''Assets:Bank'', ''Expenses:Food'']. \<exists>v. Map_get (snd e) a = Some v))
       (makeDailyBalanceMap steady_zone [''Assets:Bank'', ''Expenses:Food'']
          [(''2023.002'', [(''Assets:Bank'', 5), (''Income:Salary'', 7)])]
          \<lparr>year = 2023, dayOfYear = 1, timeOfDay = 0\<rparr> \<lparr>year = 2023, dayOfYear = 3, timeOfDay = 0\<rparr>)"
  unfolding list_all_iff
  by (rule conjI [OF makeDailyBalanceMap_example makeDailyBalanceMap_keys_are_accounts
      [of steady_zone "[''Assets:Bank'', ''Expenses:Food'']"
          "[(''2023.002'', [(''Assets:Bank'', 5), (''Income:Salary'', 7)])]"
          "\<lparr>year = 2023, dayOfYear = 1, timeOfDay = 0\<rparr>" "\<lparr>year = 2023, dayOfYear = 3, timeOfDay = 0\<rparr>"]])

section \<open>Dense daily balances: forward fill\<close>


lemma fold_Map_set_fresh:
  "distinct (map fst kvs) \<Longrightarrow> fst ` set kvs \<inter> fst ` set r = {} \<Longrightarrow>
   fold (\<lambda>e m. Map_set (fst e) (snd e) m) kvs r = r @ kvs"
proof (induction kvs arbitrary: r)
  case Nil
  show ?case by simp
next
  case (Cons e kvs)
  have "Map_set (fst e) (snd e) r = r @ [e]"
    using Cons.prems(2) by (simp add: Map_set_fresh)
  moreover have "fold (\<lambda>e m. Map_set (fst e) (snd e) m) kvs (r @ [e]) = (r @ [e]) @ kvs"
    using Cons.prems by (intro Cons.IH) auto
  ultimately show ?case by simp
qed










lemma Map_get_Nil: "Map_get [] k = None"
  by (simp add: Map_get_def)











section \<open>Sparse balance changes: sums per day and account\<close>

lemma Map_set_twice: "Map_set k v (Map_set k v' m) = Map_set k v m"
  by (induction m) auto

lemma distinct_Map_set: "distinct (map fst m) \<Longrightarrow> distinct (map fst (Map_set k v m))"
  by (auto simp: keys_Map_set)

lemma well_kept_Map_set: "well_kept accs \<Longrightarrow> v \<noteq> [] \<Longrightarrow> well_kept (Map_set a v accs)"
  unfolding well_kept_def using set_Map_set_subset[of a v accs] distinct_Map_set[of accs a v]
  by auto

lemma well_kept_get: "well_kept accs \<Longrightarrow> Map_get accs a = Some l \<Longrightarrow> l \<noteq> []"
  unfolding well_kept_def Map_get_def by (auto dest: map_of_SomeD)

lemma add_line_eq:
  "add_line line accs =
     (case line of Comment c \<Rightarrow> accs
      | Expenseline acc dealiased amt \<Rightarrow> Map_set dealiased (changes_of accs dealiased @ [amt]) accs)"
proof (cases line)
  case (Comment c)
  then show ?thesis by (simp add: add_line_def)
next
  case (Expenseline acc dealiased amt)
  show ?thesis
  proof (cases "Map_get accs dealiased")
    case None
    then show ?thesis
      using Expenseline by (simp add: add_line_def getWithDefault_def changes_of_def Map_set_twice)
  next
    case (Some l)
    then show ?thesis
      using Expenseline by (simp add: add_line_def getWithDefault_def changes_of_def)
  qed
qed

lemma changes_of_add_line:
  "changes_of (add_line line accs) a = changes_of accs a @ line_amounts a line"
  by (cases line) (auto simp: add_line_eq changes_of_def Map_get_Map_set split: option.splits)

lemma well_kept_add_line: "well_kept accs \<Longrightarrow> well_kept (add_line line accs)"
  by (cases line) (auto simp: add_line_eq well_kept_Map_set)

lemma changes_of_fold_add_line:
  "changes_of (fold add_line lines accs) a
     = changes_of accs a @ concat (map (line_amounts a) lines)"
  by (induction lines arbitrary: accs) (simp_all add: changes_of_add_line)

lemma well_kept_fold_add_line: "well_kept accs \<Longrightarrow> well_kept (fold add_line lines accs)"
  by (induction lines arbitrary: accs) (simp_all add: well_kept_add_line)

lemma add_transaction_eq:
  "add_transaction tx m =
     Map_set (travellerDate (date tx))
       (fold add_line (expenselines tx)
          (case Map_get m (travellerDate (date tx)) of None \<Rightarrow> [] | Some accs \<Rightarrow> accs)) m"
  by (cases "Map_get m (travellerDate (date tx))")
     (simp_all add: add_transaction_def getWithDefault_def Map_set_twice)

lemma day_changes_add_transaction:
  "day_changes (add_transaction tx m) k a
     = day_changes m k a @ (if travellerDate (date tx) = k
                            then concat (map (line_amounts a) (expenselines tx)) else [])"
proof -
  have "changes_of [] a = []" by (simp add: changes_of_def Map_get_Nil)
  then show ?thesis
    by (cases "Map_get m (travellerDate (date tx))")
       (auto simp: add_transaction_eq day_changes_def Map_get_Map_set changes_of_fold_add_line)
qed

lemma well_kept_Nil: "well_kept []"
  by (simp add: well_kept_def)

lemma all_well_kept_get: "all_well_kept m \<Longrightarrow> Map_get m k = Some accs \<Longrightarrow> well_kept accs"
  unfolding all_well_kept_def Map_get_def by (auto dest: map_of_SomeD)

lemma all_well_kept_add_transaction: "all_well_kept m \<Longrightarrow> all_well_kept (add_transaction tx m)"
proof -
  assume m: "all_well_kept m"
  let ?accs = "case Map_get m (travellerDate (date tx)) of None \<Rightarrow> [] | Some accs \<Rightarrow> accs"
  have "well_kept ?accs"
    using m all_well_kept_get well_kept_Nil by (auto split: option.splits)
  then have "well_kept (fold add_line (expenselines tx) ?accs)"
    by (rule well_kept_fold_add_line)
  then show ?thesis
    using m set_Map_set_subset[of "travellerDate (date tx)" "fold add_line (expenselines tx) ?accs" m]
    unfolding add_transaction_eq all_well_kept_def
    by (auto simp: distinct_Map_set)
qed

lemma keys_add_transaction:
  "fst ` set (add_transaction tx m) = insert (travellerDate (date tx)) (fst ` set m)"
  unfolding add_transaction_eq
  using keys_Map_set[of "travellerDate (date tx)" _ m]
  by (metis (no_types, lifting) Un_insert_right append_Nil2 insert_absorb list.set(2) list.set_map set_append)

lemma fold_add_transaction:
  "all_well_kept m \<Longrightarrow>
   all_well_kept (fold add_transaction txs m)
   \<and> fst ` set (fold add_transaction txs m) = fst ` set m \<union> (\<lambda>tx. travellerDate (date tx)) ` set txs
   \<and> (\<forall>k a. day_changes (fold add_transaction txs m) k a = day_changes m k a @ amounts_on k a txs)"
proof (induction txs arbitrary: m)
  case Nil
  then show ?case by (simp add: amounts_on_def)
next
  case (Cons tx txs)
  have "all_well_kept (add_transaction tx m)"
    using Cons.prems by (rule all_well_kept_add_transaction)
  from Cons.IH[OF this] show ?case
    by (auto simp: keys_add_transaction day_changes_add_transaction amounts_on_def)
qed

lemma foldl_plus_sum_list: "foldl (\<lambda>prev curr. prev + curr) (z :: number) xs = z + sum_list xs"
  by (induction xs arbitrary: z) simp_all

lemma fold_Map_set_mapped:
  assumes "distinct (map fst m)"
  shows "fold (\<lambda>entry r. case entry of (k, v) \<Rightarrow> Map_set k (f v) r) m []
           = map (\<lambda>e. (fst e, f (snd e))) m"
proof -
  have "fold (\<lambda>entry r. case entry of (k, v) \<Rightarrow> Map_set k (f v) r) m []
          = fold (\<lambda>e r. Map_set (fst e) (snd e) r) (map (\<lambda>e. (fst e, f (snd e))) m) []"
    by (simp add: fold_map comp_def case_prod_beta)
  also have "\<dots> = [] @ map (\<lambda>e. (fst e, f (snd e))) m"
    using assms by (intro fold_Map_set_fresh) (simp_all add: comp_def)
  finally show ?thesis by simp
qed

lemma Map_get_mapped:
  "Map_get (map (\<lambda>e. (fst e, f (snd e))) m) k = map_option f (Map_get m k)"
  by (induction m) (auto simp: Map_get_def)

lemma Map_get_rollUp:
  "distinct (map fst accs) \<Longrightarrow> Map_get (rollUp accs) a = map_option sum_list (Map_get accs a)"
  unfolding rollUp_def
  by (simp add: foldl_plus_sum_list fold_Map_set_mapped Map_get_mapped)

text \<open>
  C5. In the map returned by \<open>makeDailyAccountBalanceChangeMap\<close> each day key occurs once;
  a day key is present exactly when some transaction is dated that day; and under it an
  account (the de-aliased account name of a line) is present exactly when some account line
  of a transaction of that day names it, with the sum of the amounts of all those lines,
  across lines and across transactions. Comment lines contribute nothing.
\<close>

theorem makeDailyAccountBalanceChangeMap_sums:
  "distinct (map fst (makeDailyAccountBalanceChangeMap transactions))
   \<and> (case Map_get (makeDailyAccountBalanceChangeMap transactions) k of
      None \<Rightarrow> \<forall>tx \<in> set transactions. travellerDate (date tx) \<noteq> k
    | Some sparse \<Rightarrow>
        (\<exists>tx \<in> set transactions. travellerDate (date tx) = k)
        \<and> (\<forall>a. Map_get sparse a =
                 (if amounts_on k a transactions = [] then None
                  else Some (sum_list (amounts_on k a transactions)))))"
proof -
  define m where "m = fold add_transaction transactions []"
  have "all_well_kept []" by (simp add: all_well_kept_def)
  from fold_add_transaction[OF this, of transactions]
  have wk: "all_well_kept m"
    and keys: "fst ` set m = (\<lambda>tx. travellerDate (date tx)) ` set transactions"
    and ch: "\<And>k a. day_changes m k a = amounts_on k a transactions"
    by (simp_all add: m_def day_changes_def Map_get_Nil)
  have res: "makeDailyAccountBalanceChangeMap transactions = map (\<lambda>e. (fst e, rollUp (snd e))) m"
    using wk by (simp add: makeDailyAccountBalanceChangeMap_def m_def[symmetric]
                   fold_Map_set_mapped all_well_kept_def)
  have dk: "distinct (map fst (makeDailyAccountBalanceChangeMap transactions))"
    using wk by (simp add: res all_well_kept_def comp_def)
  have "case Map_get (makeDailyAccountBalanceChangeMap transactions) k of
      None \<Rightarrow> \<forall>tx \<in> set transactions. travellerDate (date tx) \<noteq> k
    | Some sparse \<Rightarrow>
        (\<exists>tx \<in> set transactions. travellerDate (date tx) = k)
        \<and> (\<forall>a. Map_get sparse a =
                 (if amounts_on k a transactions = [] then None
                  else Some (sum_list (amounts_on k a transactions))))"
  proof (cases "Map_get m k")
    case None
    then have "k \<notin> fst ` set m" by (simp add: Map_get_None_iff)
    then show ?thesis using None keys by (auto simp: res Map_get_mapped)
  next
    case (Some accs)
    then have "k \<in> fst ` set m" using Map_get_None_iff[of m k] by auto
    then have ex: "\<exists>tx \<in> set transactions. travellerDate (date tx) = k"
      using keys by auto
    have wka: "well_kept accs" using wk Some by (rule all_well_kept_get)
    have "Map_get (rollUp accs) a =
            (if amounts_on k a transactions = [] then None
             else Some (sum_list (amounts_on k a transactions)))" for a
    proof -
      have c: "changes_of accs a = amounts_on k a transactions"
        using ch[of k a] Some by (simp add: day_changes_def)
      show ?thesis
      proof (cases "Map_get accs a")
        case None
        then show ?thesis using c wka by (simp add: Map_get_rollUp well_kept_def changes_of_def)
      next
        case (Some l)
        then have "l \<noteq> []" using wka well_kept_get by blast
        then show ?thesis using c Some wka by (simp add: Map_get_rollUp well_kept_def changes_of_def)
      qed
    qed
    then show ?thesis using Some ex by (simp add: res Map_get_mapped)
  qed
  then show ?thesis using dk by simp
qed

lemma makeDailyAccountBalanceChangeMap_example:
  "makeDailyAccountBalanceChangeMap
     [\<lparr>date = \<lparr>year = 2023, dayOfYear = 115, timeOfDay = 0\<rparr>,
       expenselines = [Expenseline ''Assets:Bank'' ''Assets:Bank'' 10, Comment ''lunch'']\<rparr>,
      \<lparr>date = \<lparr>year = 2023, dayOfYear = 115, timeOfDay = 0\<rparr>,
       expenselines = [Expenseline ''Assets:Bank'' ''Assets:Bank'' (- 3)]\<rparr>]
   = [(''2023.115'', [(''Assets:Bank'', 7)])]"
  by (simp add: makeDailyAccountBalanceChangeMap_def add_transaction_def add_line_def
        getWithDefault_def rollUp_def Map_get_def travellerDate_def int_toString_def
        nat_toString.simps padStart_def digit_char_def)

theorem makeDailyAccountBalanceChangeMap_sums_witness:
  "makeDailyAccountBalanceChangeMap
     [\<lparr>date = \<lparr>year = 2023, dayOfYear = 115, timeOfDay = 0\<rparr>,
       expenselines = [Expenseline ''Assets:Bank'' ''Assets:Bank'' 10, Comment ''lunch'']\<rparr>,
      \<lparr>date = \<lparr>year = 2023, dayOfYear = 115, timeOfDay = 0\<rparr>,
       expenselines = [Expenseline ''Assets:Bank'' ''Assets:Bank'' (- 3)]\<rparr>]
     = [(''2023.115'', [(''Assets:Bank'', 7)])]
   \<and> amounts_on ''2023.115'' ''Assets:Bank''
       [\<lparr>date = \<lparr>year = 2023, dayOfYear = 115, timeOfDay = 0\<rparr>,
         expenselines = [Expenseline ''Assets:Bank'' ''Assets:Bank'' 10, Comment ''lunch'']\<rparr>,
        \<lparr>date = \<lparr>year = 2023, dayOfYear = 115, timeOfDay = 0\<rparr>,
         expenselines = [Expenseline ''Assets:Bank'' ''Assets:Bank'' (- 3)]\<rparr>] = [10, - 3]
   \<and> (\<exists>tx \<in> set [\<lparr>date = \<lparr>year = 2023, dayOfYear = 115, timeOfDay = 0\<rparr>,
         expenselines = [Expenseline ''Assets:Bank'' ''Assets:Bank'' 10, Comment ''lunch'']\<rparr>,
        \<lparr>date = \<lparr>year = 2023, dayOfYear = 115, timeOfDay = 0\<rparr>,
         expenselines = [Expenseline ''Assets:Bank'' ''Assets:Bank'' (- 3)]\<rparr>].
          travellerDate (date tx) = ''2023.115'')"
proof -
  have a: "amounts_on ''2023.115'' ''Assets:Bank''
       [\<lparr>date = \<lparr>year = 2023, dayOfYear = 115, timeOfDay = 0\<rparr>,
         expenselines = [Expenseline ''Assets:Bank'' ''Assets:Bank'' 10, Comment ''lunch'']\<rparr>,
        \<lparr>date = \<lparr>year = 2023, dayOfYear = 115, timeOfDay = 0\<rparr>,
         expenselines = [Expenseline ''Assets:Bank'' ''Assets:Bank'' (- 3)]\<rparr>] = [10, - 3]"
    by (simp add: amounts_on_def travellerDate_def int_toString_def nat_toString.simps
          padStart_def digit_char_def)
  show ?thesis
    using makeDailyAccountBalanceChangeMap_sums
      [of "[\<lparr>date = \<lparr>year = 2023, dayOfYear = 115, timeOfDay = 0\<rparr>,
             expenselines = [Expenseline ''Assets:Bank'' ''Assets:Bank'' 10, Comment ''lunch'']\<rparr>,
            \<lparr>date = \<lparr>year = 2023, dayOfYear = 115, timeOfDay = 0\<rparr>,
             expenselines = [Expenseline ''Assets:Bank'' ''Assets:Bank'' (- 3)]\<rparr>]" "''2023.115''"]
      a
    unfolding makeDailyAccountBalanceChangeMap_example
    by (simp add: Map_get_def)
qed

section \<open>Bucketing transactions\<close>

lemma str_less_le_trans: "str_less a b \<Longrightarrow> \<not> str_less c b \<Longrightarrow> str_less a c"
proof (induction a b arbitrary: c rule: str_less.induct)
  case 1
  then show ?case by simp
next
  case (2 y ys)
  then show ?case by (cases c) auto
next
  case (3 x xs)
  then show ?case by simp
next
  case (4 x xs y ys)
  then show ?case
    by (cases c) (auto split: if_splits simp: not_less order_le_less)
qed

lemma targetBucket_loop_eq:
  "targetBucket_loop k bs t =
     (case takeWhile (\<lambda>b. str_le b k) bs of [] \<Rightarrow> t | b # r \<Rightarrow> Some (last (b # r)))"
proof (induction bs arbitrary: t)
  case Nil
  show ?case by simp
next
  case (Cons b bs)
  show ?case
    using Cons.IH[of "Some b"]
    by (auto simp: str_greater_def str_le_def split: list.splits)
qed

lemma sorted_filter_takeWhile:
  "sorted_wrt str_le bs \<Longrightarrow> filter (\<lambda>b. str_le b k) bs = takeWhile (\<lambda>b. str_le b k) bs"
proof (induction bs)
  case Nil
  show ?case by simp
next
  case (Cons b bs)
  show ?case
  proof (cases "str_le b k")
    case True
    then show ?thesis using Cons by simp
  next
    case False
    then have "str_less k b" by (simp add: str_le_def)
    then have "\<forall>c \<in> set bs. \<not> str_le c k"
      using Cons.prems str_less_le_trans[of k b] by (auto simp: str_le_def)
    then show ?thesis using False by (simp add: filter_empty_conv)
  qed
qed

lemma targetBucket_of_sorted:
  "sorted_wrt str_le bucketNames \<Longrightarrow>
   targetBucket_of bucketNames tx = bucket_for bucketNames (travellerDate (date tx))"
proof -
  assume "sorted_wrt str_le bucketNames"
  then have "filter (\<lambda>b. str_le b (travellerDate (date tx))) bucketNames
               = takeWhile (\<lambda>b. str_le b (travellerDate (date tx))) bucketNames"
    by (rule sorted_filter_takeWhile)
  moreover have "first_bucket bucketNames = (case bucketNames of [] \<Rightarrow> None | b # bs \<Rightarrow> Some b)"
    by (cases bucketNames) simp_all
  ultimately show ?thesis
    by (simp only: targetBucket_of_def bucket_for_def targetBucket_loop_eq)
qed

lemma place_eq: "place t tx m = Map_set (t tx) (bucket_list m (t tx) @ [tx]) m"
  by (cases "Map_get m (t tx)")
     (simp_all add: place_def getWithDefault_def bucket_list_def Map_set_twice)

lemma bucket_list_place:
  "bucket_list (place t tx m) k = bucket_list m k @ (if t tx = k then [tx] else [])"
  by (auto simp: place_eq bucket_list_def Map_get_Map_set)

lemma keys_place: "fst ` set (place t tx m) = insert (t tx) (fst ` set m)"
  unfolding place_eq using keys_Map_set[of "t tx" _ m]
  by (metis (no_types, lifting) Un_insert_right append_Nil2 insert_absorb list.set(2) list.set_map set_append)

lemma distinct_place: "distinct (map fst m) \<Longrightarrow> distinct (map fst (place t tx m))"
  by (simp add: place_eq distinct_Map_set)

lemma fold_place:
  "bucket_list (fold (place t) txs m) k = bucket_list m k @ filter (\<lambda>tx. t tx = k) txs
   \<and> fst ` set (fold (place t) txs m) = fst ` set m \<union> t ` set txs
   \<and> (distinct (map fst m) \<longrightarrow> distinct (map fst (fold (place t) txs m)))"
  by (induction txs arbitrary: m) (auto simp: bucket_list_place keys_place distinct_place)

lemma bucketTransactions_eq:
  "bucketTransactions bucketNames txs =
     fold (place (targetBucket_of bucketNames)) txs
       (fold (\<lambda>k m. Map_set k [] m) (map Some bucketNames) [])"
proof -
  have "(\<lambda>tx buckets.
             let targetBucket = targetBucket_of bucketNames tx;
                 (arr, buckets') = getWithDefault buckets targetBucket []
             in Map_set targetBucket (arr @ [tx]) buckets') = place (targetBucket_of bucketNames)"
    by (intro ext) (simp add: place_def)
  then show ?thesis
    by (simp add: bucketTransactions_def fold_map comp_def)
qed

lemma bucket_for_in:
  "bucketNames \<noteq> [] \<Longrightarrow> \<exists>b \<in> set bucketNames. bucket_for bucketNames k = Some b"
proof -
  assume ne: "bucketNames \<noteq> []"
  show ?thesis
  proof (cases "filter (\<lambda>b. str_le b k) bucketNames")
    case Nil
    then show ?thesis using ne by (cases bucketNames) (simp_all add: bucket_for_def)
  next
    case (Cons b bs)
    then have "last (b # bs) \<in> set bucketNames"
      by (metis filter_is_subset last_in_set list.distinct(1) subsetD)
    then show ?thesis using Cons by (simp add: bucket_for_def del: last.simps)
  qed
qed

lemma bucket_list_fold_empty: "bucket_list (fold (\<lambda>k m. Map_set k [] m) ks []) k = []"
  by (simp add: bucket_list_def fold_Map_set_get Map_get_Nil)

lemma bucket_list_get:
  "k \<in> fst ` set m \<Longrightarrow> Map_get m k = Some (bucket_list m k)"
  using Map_get_None_iff[of m k] by (auto simp: bucket_list_def)

text \<open>
  The loop on bucket keys in the order of the string comparison. For a non-empty bucket-key
  list sorted in the order of the string comparison, \<open>bucketTransactions\<close> returns one entry
  per bucket key, and the entry of a bucket holds, in their order, the transactions for which
  it is the last bucket key not greater than the key of the transaction, or the first bucket
  key when there is none.
\<close>

theorem bucketTransactions_last_not_after:
  assumes "bucketNames \<noteq> []" and "sorted_wrt str_le bucketNames"
  shows "fst ` set (bucketTransactions bucketNames txs) = Some ` set bucketNames
       \<and> distinct (map fst (bucketTransactions bucketNames txs))
       \<and> (\<forall>b \<in> set bucketNames.
            Map_get (bucketTransactions bucketNames txs) (Some b)
              = Some (filter (\<lambda>tx. bucket_for bucketNames (travellerDate (date tx)) = Some b) txs))
       \<and> (\<forall>tx \<in> set txs. \<exists>b \<in> set bucketNames.
            bucket_for bucketNames (travellerDate (date tx)) = Some b)"
proof -
  define init where "init = fold (\<lambda>k m. Map_set k [] m) (map Some bucketNames) ([] :: (string option, EnhancedTransaction list) Map)"
  define t where "t = targetBucket_of bucketNames"
  have t: "t tx = bucket_for bucketNames (travellerDate (date tx))" for tx
    using assms(2) by (simp add: t_def targetBucket_of_sorted)
  have res: "bucketTransactions bucketNames txs = fold (place t) txs init"
    by (simp add: bucketTransactions_eq init_def t_def)
  have ik: "fst ` set init = Some ` set bucketNames"
    unfolding init_def using fold_Map_set_keys[of "\<lambda>k. []" "map Some bucketNames" "[]"] by simp
  have id: "distinct (map fst init)"
    unfolding init_def using fold_Map_set_distinct[of "[]" "\<lambda>k. []" "map Some bucketNames"] by simp
  have ig: "bucket_list init k = []" for k
    unfolding init_def by (rule bucket_list_fold_empty)
  have tin: "t tx \<in> Some ` set bucketNames" for tx
    using bucket_for_in[OF assms(1), of "travellerDate (date tx)"] by (auto simp: t)
  have keys: "fst ` set (bucketTransactions bucketNames txs) = Some ` set bucketNames"
    using fold_place[of t txs init] ik tin by (auto simp: res)
  have dist: "distinct (map fst (bucketTransactions bucketNames txs))"
    using fold_place[of t txs init] id by (simp add: res)
  have get: "Map_get (bucketTransactions bucketNames txs) (Some b)
              = Some (filter (\<lambda>tx. bucket_for bucketNames (travellerDate (date tx)) = Some b) txs)"
    if "b \<in> set bucketNames" for b
  proof -
    have "Some b \<in> fst ` set (bucketTransactions bucketNames txs)"
      using that keys by simp
    then have "Map_get (bucketTransactions bucketNames txs) (Some b)
                 = Some (bucket_list (bucketTransactions bucketNames txs) (Some b))"
      by (rule bucket_list_get)
    also have "bucket_list (bucketTransactions bucketNames txs) (Some b)
                 = filter (\<lambda>tx. t tx = Some b) txs"
      using fold_place[of t txs init "Some b"] ig by (simp add: res)
    finally show ?thesis by (simp add: t)
  qed
  show ?thesis
    using keys dist get bucket_for_in[OF assms(1)] by blast
qed

theorem bucketTransactions_last_not_after_witness:
  "[''2023.100'', ''2023.110'', ''2023.120''] \<noteq> []
   \<and> sorted_wrt str_le [''2023.100'', ''2023.110'', ''2023.120'']
   \<and> bucket_for [''2023.100'', ''2023.110'', ''2023.120'']
        (travellerDate \<lparr>year = 2023, dayOfYear = 115, timeOfDay = 0\<rparr>) = Some ''2023.110''
   \<and> bucket_for [''2023.100'', ''2023.110'', ''2023.120'']
        (travellerDate \<lparr>year = 2023, dayOfYear = 95, timeOfDay = 0\<rparr>) = Some ''2023.100''
   \<and> Map_get (bucketTransactions [''2023.100'', ''2023.110'', ''2023.120'']
        [\<lparr>date = \<lparr>year = 2023, dayOfYear = 115, timeOfDay = 0\<rparr>, expenselines = []\<rparr>,
         \<lparr>date = \<lparr>year = 2023, dayOfYear = 95, timeOfDay = 0\<rparr>, expenselines = []\<rparr>]) (Some ''2023.110'')
       = Some [\<lparr>date = \<lparr>year = 2023, dayOfYear = 115, timeOfDay = 0\<rparr>, expenselines = []\<rparr>]
   \<and> Map_get (bucketTransactions [''2023.100'', ''2023.110'', ''2023.120'']
        [\<lparr>date = \<lparr>year = 2023, dayOfYear = 115, timeOfDay = 0\<rparr>, expenselines = []\<rparr>,
         \<lparr>date = \<lparr>year = 2023, dayOfYear = 95, timeOfDay = 0\<rparr>, expenselines = []\<rparr>]) (Some ''2023.100'')
       = Some [\<lparr>date = \<lparr>year = 2023, dayOfYear = 95, timeOfDay = 0\<rparr>, expenselines = []\<rparr>]"
proof -
  have ne: "[''2023.100'', ''2023.110'', ''2023.120''] \<noteq> []" by simp
  have so: "sorted_wrt str_le [''2023.100'', ''2023.110'', ''2023.120'']"
    by (simp add: str_le_def)
  have k1: "travellerDate \<lparr>year = 2023, dayOfYear = 115, timeOfDay = 0\<rparr> = ''2023.115''"
    and k2: "travellerDate \<lparr>year = 2023, dayOfYear = 95, timeOfDay = 0\<rparr> = ''2023.095''"
    by (simp_all add: travellerDate_def int_toString_def nat_toString.simps padStart_def
          digit_char_def)
  have b1: "bucket_for [''2023.100'', ''2023.110'', ''2023.120''] ''2023.115'' = Some ''2023.110''"
    and b2: "bucket_for [''2023.100'', ''2023.110'', ''2023.120''] ''2023.095'' = Some ''2023.100''"
    by (simp_all add: bucket_for_def str_le_def)
  show ?thesis
    using bucketTransactions_last_not_after [OF ne so,
      of "[\<lparr>date = \<lparr>year = 2023, dayOfYear = 115, timeOfDay = 0\<rparr>, expenselines = []\<rparr>,
           \<lparr>date = \<lparr>year = 2023, dayOfYear = 95, timeOfDay = 0\<rparr>, expenselines = []\<rparr>]"]
      so
    unfolding k1 k2 by (simp add: b1 b2 k1 k2 del: sorted_wrt.simps)
qed

text \<open>
  C2, on the code. The bucket names from day 365 of year 999 to day 1 of year 1000 are in
  chronological order, and the second is the key of a transaction of day 1 of year 1000: it
  is the matching bucket, and the last bucket key not greater than the key of the transaction
  in the order of the string comparison. The loop compares the first bucket key \<open>999.365\<close>
  with \<open>1000.001\<close> as strings, finds it greater, and stops: the transaction is filed under
  \<open>999.365\<close> and the bucket \<open>1000.001\<close> stays empty.
\<close>

theorem bucketTransactions_year_1000:
  "makeBucketNames steady_zone Day \<lparr>year = 999, dayOfYear = 365, timeOfDay = 0\<rparr>
       \<lparr>year = 1000, dayOfYear = 1, timeOfDay = 0\<rparr>
     = [''999.365'', ''1000.001'']
   \<and> list_all2 (\<lambda>k D. is_bucket_key D k) [''999.365'', ''1000.001''] [(999, 365), (1000, 1)]
   \<and> sorted_wrt day_less [(999, 365), (1000, 1)]
   \<and> travellerDate \<lparr>year = 1000, dayOfYear = 1, timeOfDay = 0\<rparr> = ''1000.001''
   \<and> str_le ''1000.001'' ''1000.001'' \<and> \<not> str_le ''999.365'' ''1000.001''
   \<and> bucket_for [''999.365'', ''1000.001''] ''1000.001'' = Some ''1000.001''
   \<and> targetBucket_of [''999.365'', ''1000.001'']
        \<lparr>date = \<lparr>year = 1000, dayOfYear = 1, timeOfDay = 0\<rparr>, expenselines = []\<rparr> = Some ''999.365''
   \<and> bucketTransactions [''999.365'', ''1000.001'']
        [\<lparr>date = \<lparr>year = 1000, dayOfYear = 1, timeOfDay = 0\<rparr>, expenselines = []\<rparr>]
       = [(Some ''999.365'', [\<lparr>date = \<lparr>year = 1000, dayOfYear = 1, timeOfDay = 0\<rparr>, expenselines = []\<rparr>]),
          (Some ''1000.001'', [])]"
proof -
  have k: "travellerDate \<lparr>year = 1000, dayOfYear = 1, timeOfDay = 0\<rparr> = ''1000.001''"
    by (simp add: travellerDate_def int_toString_def nat_toString.simps padStart_def
          digit_char_def numeral_2_eq_2)
  have k1: "travellerDate \<lparr>year = 1000, dayOfYear = Suc 0, timeOfDay = 0\<rparr> = ''1000.001''"
    using k by simp
  have n: "makeBucketNames steady_zone Day \<lparr>year = 999, dayOfYear = 365, timeOfDay = 0\<rparr>
       \<lparr>year = 1000, dayOfYear = 1, timeOfDay = 0\<rparr>
     = [''999.365'', ''1000.001'']"
    by (simp add: makeBucketNames_def makeBucketNames_loop.simps isSameOrBefore_def add_one_def
          daysInYear_def isLeapYear_def travellerDate_def int_toString_def nat_toString.simps
          padStart_def digit_char_def steady_zone_def numeral_2_eq_2)
  have d0: "day_key (999, 365) = ''999.365''" and d1: "day_key (1000, 1) = ''1000.001''"
    by (simp_all add: day_key_def travellerDate_def int_toString_def nat_toString.simps
          padStart_def digit_char_def numeral_2_eq_2)
  have f0: "is_bucket_key (999, 365) ''999.365''"
    using is_bucket_key_day_key[of "(999, 365)"] unfolding d0 by simp
  have f1: "is_bucket_key (1000, 1) ''1000.001''"
    using is_bucket_key_day_key[of "(1000, 1)"] unfolding d1 by simp
  have f: "list_all2 (\<lambda>k D. is_bucket_key D k) [''999.365'', ''1000.001''] [(999, 365), (1000, 1)]"
    using f0 f1 by simp
  have c: "sorted_wrt day_less [(999, 365), (1000, 1)]"
    by (simp add: day_less_def)
  have s1: "str_le ''1000.001'' ''1000.001''" and s0: "\<not> str_le ''999.365'' ''1000.001''"
    by (simp_all add: str_le_def)
  have t: "targetBucket_of [''999.365'', ''1000.001'']
        \<lparr>date = \<lparr>year = 1000, dayOfYear = 1, timeOfDay = 0\<rparr>, expenselines = []\<rparr> = Some ''999.365''"
    by (simp add: targetBucket_of_def k1 str_greater_def)
  have b: "bucket_for [''999.365'', ''1000.001''] ''1000.001'' = Some ''1000.001''"
    by (simp add: bucket_for_def str_le_def)
  have r: "bucketTransactions [''999.365'', ''1000.001'']
        [\<lparr>date = \<lparr>year = 1000, dayOfYear = 1, timeOfDay = 0\<rparr>, expenselines = []\<rparr>]
       = [(Some ''999.365'', [\<lparr>date = \<lparr>year = 1000, dayOfYear = 1, timeOfDay = 0\<rparr>, expenselines = []\<rparr>]),
          (Some ''1000.001'', [])]"
    by (simp add: bucketTransactions_def t [unfolded One_nat_def] Let_def getWithDefault_def
          Map_get_def)
  show ?thesis
    by (intro conjI n f c k s1 s0 b t r)
qed

text \<open>
  C3, on the code. With no bucket names \<open>bucketNames[0]\<close> is \<open>undefined\<close>, the loop does not
  run, and \<open>getWithDefault\<close> inserts the transaction under the key \<open>undefined\<close>: the returned
  map is not empty.
\<close>

theorem bucketTransactions_no_buckets:
  "bucketTransactions [] [\<lparr>date = \<lparr>year = 2023, dayOfYear = 115, timeOfDay = 0\<rparr>, expenselines = []\<rparr>]
     = [(None, [\<lparr>date = \<lparr>year = 2023, dayOfYear = 115, timeOfDay = 0\<rparr>, expenselines = []\<rparr>])]"
  by (simp add: bucketTransactions_def targetBucket_of_def getWithDefault_def Map_get_def)

lemma bucketTransactions_no_buckets_general:
  "bucketTransactions [] txs = (if txs = [] then [] else [(None, txs)])"
proof -
  have t: "targetBucket_of [] = (\<lambda>tx. None)"
    by (intro ext) (simp add: targetBucket_of_def)
  have "fold (place (\<lambda>tx. None)) txs m
          = (if txs = [] then m else Map_set None (bucket_list m None @ txs) m)" for m :: "(string option, EnhancedTransaction list) Map"
  proof (induction txs arbitrary: m)
    case Nil
    show ?case by simp
  next
    case (Cons tx txs)
    show ?case
      by (simp add: Cons.IH) (simp add: place_eq bucket_list_def Map_get_Map_set Map_set_twice)
  qed
  from this[of "[]"] show ?thesis
    by (simp add: bucketTransactions_eq t bucket_list_def Map_get_Nil)
qed

section \<open>The account tree\<close>

lemma first_seen_snoc:
  "first_seen (xs @ [x]) = (if x \<in> set (first_seen xs) then first_seen xs else first_seen xs @ [x])"
  by (simp add: first_seen_def)

lemma set_first_seen: "set (first_seen xs) = set xs"
  by (induction xs rule: rev_induct) (auto simp: first_seen_snoc, simp add: first_seen_def)

lemma distinct_first_seen: "distinct (first_seen xs)"
  by (induction xs rule: rev_induct) (auto simp: first_seen_snoc, simp add: first_seen_def)

lemma first_seen_Nil: "first_seen [] = []"
  by (simp add: first_seen_def)

lemma heads_snoc:
  "heads (Q @ [q]) =
     (if q = [] \<or> hd q \<in> set (heads Q) then heads Q else heads Q @ [hd q])"
  by (simp add: heads_def first_seen_snoc)

lemma heads_Nil: "heads [] = []"
  by (simp add: heads_def first_seen_Nil)

lemma rests_after_snoc:
  "rests_after s (Q @ [q]) = (if q \<noteq> [] \<and> hd q = s then rests_after s Q @ [tl q] else rests_after s Q)"
  by (simp add: rests_after_def)

lemma rests_after_Nil: "rests_after s [] = []"
  by (simp add: rests_after_def)

lemma set_heads: "set (heads Q) = hd ` {q \<in> set Q. q \<noteq> []}"
  by (auto simp: heads_def set_first_seen)

lemma distinct_heads: "distinct (heads Q)"
  by (simp add: heads_def distinct_first_seen)

lemma rests_after_not_head: "s \<notin> set (heads Q) \<Longrightarrow> rests_after s Q = []"
  by (auto simp: set_heads rests_after_def filter_empty_conv)

lemma represents_children:
  "repr_node n Q \<Longrightarrow> represents (children n) Q"
  by (cases n) (simp add: represents_def)

lemma repr_node_iff:
  "repr_node n Q \<longleftrightarrow> exists n = ([] \<in> set Q) \<and> represents (children n) Q"
  by (cases n) (simp add: represents_def)

lemma represents_Nil: "represents [] []"
  by (simp add: represents_def heads_Nil)

lemma represents_snoc_Nil: "represents cs Q \<Longrightarrow> represents cs (Q @ [[]])"
  by (simp add: represents_def heads_snoc rests_after_snoc)

lemma insert_path_notin:
  "seg \<notin> label ` set cs \<Longrightarrow>
   insert_path (seg # rest) cs = cs @ [TreeNode (rest = []) seg (insert_path rest [])]"
  by (induction cs) auto

lemma insert_path_in:
  "seg \<notin> label ` set pre \<Longrightarrow> label n = seg \<Longrightarrow>
   insert_path (seg # rest) (pre @ n # post)
     = pre @ TreeNode (if rest = [] then True else exists n) seg (insert_path rest (children n)) # post"
  by (induction pre) auto

lemma first_with_label:
  "seg \<in> label ` set cs \<Longrightarrow>
   \<exists>pre n post. cs = pre @ n # post \<and> label n = seg \<and> seg \<notin> label ` set pre"
proof (induction cs)
  case Nil
  then show ?case by simp
next
  case (Cons c cs)
  show ?case
  proof (cases "label c = seg")
    case True
    then have "c # cs = [] @ c # cs \<and> label c = seg \<and> seg \<notin> label ` set []" by simp
    then show ?thesis by blast
  next
    case False
    then have "seg \<in> label ` set cs" using Cons.prems by auto
    then obtain pre n post where "cs = pre @ n # post" "label n = seg" "seg \<notin> label ` set pre"
      using Cons.IH by blast
    then have "c # cs = (c # pre) @ n # post \<and> label n = seg \<and> seg \<notin> label ` set (c # pre)"
      using False by simp
    then show ?thesis by blast
  qed
qed

lemma represents_insert_path:
  "represents cs Q \<Longrightarrow> represents (insert_path q cs) (Q @ [q])"
proof (induction q arbitrary: cs Q)
  case Nil
  then show ?case by (simp add: represents_snoc_Nil)
next
  case (Cons seg rest)
  have labels: "map label cs = heads Q" and nodes: "\<forall>c \<in> set cs. repr_node c (rests_after (label c) Q)"
    using Cons.prems by (simp_all add: represents_def)
  show ?case
  proof (cases "seg \<in> set (heads Q)")
    case False
    then have notin: "seg \<notin> label ` set cs" using labels by (metis list.set_map)
    have "rests_after seg Q = []" using False by (rule rests_after_not_head)
    then have u: "rests_after seg (Q @ [seg # rest]) = [] @ [rest]" by (simp add: rests_after_snoc)
    have "represents (insert_path rest []) ([] @ [rest])"
      by (rule Cons.IH) (rule represents_Nil)
    then have new: "repr_node (TreeNode (rest = []) seg (insert_path rest [])) (rests_after seg (Q @ [seg # rest]))"
      unfolding u by (auto simp: repr_node_iff)
    have old: "\<forall>c \<in> set cs. repr_node c (rests_after (label c) (Q @ [seg # rest]))"
      using nodes notin by (auto simp: rests_after_snoc)
    show ?thesis
      using False labels new old
      by (simp add: insert_path_notin[OF notin] represents_def heads_snoc)
  next
    case True
    then have "seg \<in> label ` set cs" using labels by (metis list.set_map)
    then obtain pre n post where split: "cs = pre @ n # post" and n: "label n = seg"
      and pre: "seg \<notin> label ` set pre"
      using first_with_label by blast
    have dl: "distinct (map label cs)" using labels distinct_heads by simp
    have others: "\<forall>c \<in> set pre \<union> set post. label c \<noteq> seg"
      using dl n unfolding split by (auto simp: image_iff)
    have rn: "repr_node n (rests_after seg Q)" using nodes n split by auto
    then have "represents (children n) (rests_after seg Q)" by (rule represents_children)
    then have ch: "represents (insert_path rest (children n)) (rests_after seg Q @ [rest])"
      by (rule Cons.IH)
    have ex: "exists n = ([] \<in> set (rests_after seg Q))" using rn by (simp add: repr_node_iff)
    have new: "repr_node (TreeNode (if rest = [] then True else exists n) seg
                 (insert_path rest (children n))) (rests_after seg (Q @ [seg # rest]))"
      using ch ex by (auto simp: repr_node_iff rests_after_snoc)
    have old: "\<forall>c \<in> set pre \<union> set post. repr_node c (rests_after (label c) (Q @ [seg # rest]))"
      using nodes others unfolding split by (auto simp: rests_after_snoc)
    have hq: "heads (Q @ [seg # rest]) = heads Q" using True by (simp add: heads_snoc)
    show ?thesis
      unfolding split insert_path_in[OF pre n] represents_def hq
      using labels n new old unfolding split by auto
  qed
qed

lemma represents_fold:
  "represents t Q \<Longrightarrow>
   represents (fold (\<lambda>path tree. insert_path (split_colon path) tree) input t)
     (Q @ map split_colon input)"
proof (induction input arbitrary: t Q)
  case Nil
  then show ?case by simp
next
  case (Cons path input)
  have "represents (insert_path (split_colon path) t) (Q @ [split_colon path])"
    using Cons.prems by (rule represents_insert_path)
  from Cons.IH[OF this] show ?case by simp
qed

lemma represents_buildTree: "represents (buildTree input) (map split_colon input)"
  using represents_fold[OF represents_Nil, of input] by (simp add: buildTree_def)

lemma join_colon_snoc:
  "join_colon (p @ [s]) = (if p = [] then s else join_colon p @ '':'' @ s)"
  by (induction p rule: join_colon.induct) simp_all

lemma fold_render_acc:
  "(\<And>c out. c \<in> set cs \<Longrightarrow> f c out = out @ f c []) \<Longrightarrow>
   fold f cs out = out @ concat (map (\<lambda>c. f c []) cs)"
proof (induction cs arbitrary: out)
  case Nil
  show ?case by simp
next
  case (Cons c cs)
  have "fold f (c # cs) out = fold f cs (f c out)" by simp
  also have "\<dots> = f c out @ concat (map (\<lambda>c. f c []) cs)"
    by (rule Cons.IH) (rule Cons.prems, simp)
  also have "f c out = out @ f c []" by (rule Cons.prems) simp
  finally show ?case by simp
qed

lemma renderTree_acc: "renderTree out n path = out @ renderTree [] n path"
proof (induction out n path rule: renderTree.induct)
  case (1 outp ex lab chs path)
  define np where "np = (case path of None \<Rightarrow> lab
                         | Some p \<Rightarrow> if p \<noteq> [] then p @ '':'' @ lab else lab)"
  have IH: "renderTree out c (Some np) = out @ renderTree [] c (Some np)"
    if "c \<in> set chs" for c out
    using "1.IH"[OF np_def refl that] .
  have f: "fold (\<lambda>child out. renderTree out child (Some np)) chs out
             = out @ concat (map (\<lambda>c. renderTree [] c (Some np)) chs)" for out
    using IH by (rule fold_render_acc[where f = "\<lambda>child out. renderTree out child (Some np)"])
  show ?case
    by (simp add: Let_def np_def[symmetric] f)
qed

lemma renderTree_eq:
  "renderTree [] (TreeNode ex lab chs) path =
     (let np = (case path of None \<Rightarrow> lab | Some p \<Rightarrow> if p \<noteq> [] then p @ '':'' @ lab else lab)
      in (if length chs \<noteq> 1 \<and> ex then [np] else [])
         @ concat (map (\<lambda>c. renderTree [] c (Some np)) chs))"
proof -
  define np where "np = (case path of None \<Rightarrow> lab
                         | Some p \<Rightarrow> if p \<noteq> [] then p @ '':'' @ lab else lab)"
  have "fold (\<lambda>child out. renderTree out child (Some np)) chs out
             = out @ concat (map (\<lambda>c. renderTree [] c (Some np)) chs)" for out
    using renderTree_acc
    by (rule fold_render_acc[where f = "\<lambda>child out. renderTree out child (Some np)"])
  then show ?thesis
    by (simp add: Let_def np_def[symmetric])
qed

lemma heads_all_empty: "\<forall>q \<in> set Q. q = [] \<Longrightarrow> heads Q = []"
  by (simp add: heads_def first_seen_Nil filter_empty_conv)

lemma plain_roots_no_children: "plain_roots Q \<Longrightarrow> heads (rests_after [] Q) = []"
  by (rule heads_all_empty) (auto simp: plain_roots_def rests_after_def)

lemma render_walk:
  "represents cs Q \<Longrightarrow> (p = [] \<longrightarrow> plain_roots Q) \<Longrightarrow>
   (p \<noteq> [] \<longrightarrow> join_colon p \<noteq> [] \<or> heads Q = []) \<Longrightarrow>
   concat (map (\<lambda>c. renderTree [] c (code_path p)) cs) = walk p Q"
proof (induction p Q arbitrary: cs rule: walk.induct)
  case (1 p Q)
  define G where "G = (\<lambda>s. (if [] \<in> set (rests_after s Q) \<and> length (heads (rests_after s Q)) \<noteq> 1
                         then [join_colon (p @ [s])] else [])
                        @ walk (p @ [s]) (rests_after s Q))"
  have labels: "map label cs = heads Q"
    and nodes: "\<forall>c \<in> set cs. repr_node c (rests_after (label c) Q)"
    using "1.prems"(1) by (simp_all add: represents_def)
  have step: "renderTree [] c (code_path p) = G (label c)" if c: "c \<in> set cs" for c
  proof -
    obtain ex s chs where ceq: "c = TreeNode ex s chs" by (cases c)
    have s: "s \<in> set (heads Q)" using c labels ceq by (metis TreeNode.sel(2) image_eqI list.set_map)
    then have hq: "heads Q \<noteq> []" by auto
    have rn: "repr_node (TreeNode ex s chs) (rests_after s Q)" using nodes c ceq by auto
    then have ex: "ex = ([] \<in> set (rests_after s Q))" and chl: "map label chs = heads (rests_after s Q)"
      and chr: "represents chs (rests_after s Q)"
      by (simp_all add: represents_def)
    have len: "length chs = length (heads (rests_after s Q))" using chl by (metis length_map)
    have pne: "p = [] \<or> join_colon p \<noteq> []" using "1.prems"(3) hq by auto
    have np: "(case code_path p of None \<Rightarrow> s | Some q \<Rightarrow> if q \<noteq> [] then q @ '':'' @ s else s)
                = join_colon (p @ [s])"
      using pne by (auto simp: code_path_def join_colon_snoc)
    have cp: "code_path (p @ [s]) = Some (join_colon (p @ [s]))" by (simp add: code_path_def)
    have cond: "join_colon (p @ [s]) \<noteq> [] \<or> heads (rests_after s Q) = []"
    proof (cases "p = []")
      case True
      then have "plain_roots Q" using "1.prems"(2) by simp
      then show ?thesis using True plain_roots_no_children by (cases "s = []") auto
    next
      case False
      then show ?thesis by (simp add: join_colon_snoc)
    qed
    have "concat (map (\<lambda>c. renderTree [] c (code_path (p @ [s]))) chs) = walk (p @ [s]) (rests_after s Q)"
      using cond by (intro "1.IH"[OF s chr]) simp_all
    then show ?thesis
      unfolding ceq
      by (simp add: renderTree_eq np Let_def cp G_def ex len conj_commute del: renderTree.simps)
  qed
  have "concat (map (\<lambda>c. renderTree [] c (code_path p)) cs) = concat (map (\<lambda>c. G (label c)) cs)"
    using step by (metis (mono_tags, lifting) map_eq_conv)
  also have "\<dots> = concat (map G (map label cs))" by (simp add: comp_def)
  also have "\<dots> = walk p Q" unfolding labels G_def by (subst (2) walk.simps) simp
  finally show ?case .
qed

lemma hd_split_colon: "split_colon path \<noteq> []"
  by (cases path) (auto split: list.splits)

lemma split_colon_empty_head:
  "hd (split_colon path) = [] \<Longrightarrow> \<not> startsWith path '':'' \<Longrightarrow> split_colon path = [[]]"
  by (cases path) (auto split: list.splits)

lemma plain_roots_split:
  "\<forall>path \<in> set input. \<not> startsWith path '':'' \<Longrightarrow> plain_roots (map split_colon input)"
  using split_colon_empty_head by (fastforce simp: plain_roots_def)

lemma renderRoot_eq: "renderRoot [] cs = concat (map (\<lambda>c. renderTree [] c None) cs)"
proof -
  have "fold (\<lambda>child out. renderTree out child None) cs [] 
          = [] @ concat (map (\<lambda>c. renderTree [] c None) cs)"
    using renderTree_acc by (rule fold_render_acc[where f = "\<lambda>child out. renderTree out child None"])
  then show ?thesis by (simp add: renderRoot_def)
qed

text \<open>
  When no path begins with a colon, \<open>removeDuplicateAccounts\<close> returns the walk of the
  specification over the segment lists of the paths.
\<close>

theorem removeDuplicateAccounts_walk:
  assumes "\<forall>path \<in> set input. \<not> startsWith path '':''"
  shows "removeDuplicateAccounts input = walk [] (map split_colon input)"
proof -
  have "concat (map (\<lambda>c. renderTree [] c (code_path [])) (buildTree input))
          = walk [] (map split_colon input)"
    using represents_buildTree plain_roots_split[OF assms] by (intro render_walk) simp_all
  then show ?thesis
    by (simp add: removeDuplicateAccounts_def renderRoot_eq code_path_def)
qed

theorem removeDuplicateAccounts_walk_witness:
  "\<not> startsWith ''Liabilities'' '':'' \<and> \<not> startsWith ''Liabilities:Credit'' '':''
   \<and> \<not> startsWith ''Liabilities:Credit:Chase'' '':'' \<and> \<not> startsWith ''Liabilities:Credit:Citi'' '':''
   \<and> walk [] (map split_colon
        [''Liabilities'', ''Liabilities:Credit'', ''Liabilities:Credit:Chase'', ''Liabilities:Credit:Citi''])
      = [''Liabilities:Credit'', ''Liabilities:Credit:Chase'', ''Liabilities:Credit:Citi'']
   \<and> removeDuplicateAccounts
        [''Liabilities'', ''Liabilities:Credit'', ''Liabilities:Credit:Chase'', ''Liabilities:Credit:Citi'']
      = [''Liabilities:Credit'', ''Liabilities:Credit:Chase'', ''Liabilities:Credit:Citi'']"
proof -
  have h: "\<forall>path \<in> set [''Liabilities'', ''Liabilities:Credit'', ''Liabilities:Credit:Chase'',
             ''Liabilities:Credit:Citi'']. \<not> startsWith path '':''"
    by simp
  have e: "removeDuplicateAccounts
     [''Liabilities'', ''Liabilities:Credit'', ''Liabilities:Credit:Chase'', ''Liabilities:Credit:Citi'']
   = [''Liabilities:Credit'', ''Liabilities:Credit:Chase'', ''Liabilities:Credit:Citi'']"
    by (simp add: removeDuplicateAccounts_def buildTree_def renderRoot_def)
  have w: "walk [] (map split_colon
        [''Liabilities'', ''Liabilities:Credit'', ''Liabilities:Credit:Chase'', ''Liabilities:Credit:Citi''])
      = [''Liabilities:Credit'', ''Liabilities:Credit:Chase'', ''Liabilities:Credit:Citi'']"
    using removeDuplicateAccounts_walk [OF h] unfolding e by (rule sym)
  have n: "\<not> startsWith ''Liabilities'' '':''" "\<not> startsWith ''Liabilities:Credit'' '':''"
    "\<not> startsWith ''Liabilities:Credit:Chase'' '':''" "\<not> startsWith ''Liabilities:Credit:Citi'' '':''"
    by simp_all
  show ?thesis
    by (intro conjI n w e)
qed

text \<open>
  C9, on the code. The path \<open>:A\<close> has the segments \<open>""\<close> and \<open>A\<close>. The node of the
  empty segment has the empty string as its path, which \<open>path ? ... : ...\<close> takes for an
  absent path: the node below it is emitted as \<open>A\<close>, not as its colon-joined path \<open>:A\<close>.
\<close>

theorem removeDuplicateAccounts_leading_colon:
  "removeDuplicateAccounts ['':A''] = [''A'']"
  by (simp add: removeDuplicateAccounts_def buildTree_def renderRoot_def)

end
